theory Spec2Isabelle
  imports Main "HOL-Library.Word"
begin

unbundle bit_operations_syntax

section \<open>Data model of the X9 message-passing library (x9.c)\<close>

type_synonym u64 = "64 word"
type_synonym u128 = "128 word"
type_synonym byte = "8 word"

text \<open>
  One cell of the ring: the three atomic flags of \<^verbatim>\<open>x9_msg_header\<close> followed by the
  inline payload region of \<^verbatim>\<open>msg_sz\<close> bytes (the padding bytes carry no data).
  The contiguous \<^verbatim>\<open>msgs\<close> array of the inbox is the list of its slots, so that
  \<^verbatim>\<open>x9_header_ptr(inbox, idx)\<close> is the \<open>idx\<close>-th element of that list.
\<close>

record x9_slot =
  slot_has_data :: bool
  msg_written :: bool
  shared :: bool
  payload :: "byte list"

record x9_inbox =
  read_idx :: u64
  write_idx :: u64
  sz :: u64
  msg_sz :: u64
  "constant" :: u64
  msgs :: "x9_slot list"
  name :: string

text \<open>
  Outcome of the three allocations a constructor performs, in the order of the source:
  the structure itself, the copy of the name, and the array (slots of an inbox,
  references of a node). \<open>True\<close> means that the allocator returned a non-NULL pointer.
\<close>

record x9_alloc =
  alloc_struct :: bool
  alloc_name :: bool
  alloc_array :: bool

section \<open>Internal functions\<close>

text \<open>
  \<^verbatim>\<open>x9_load_idx\<close>: a relaxed load of the selected counter, the 64-bit wrapping product
  with the reciprocal constant, then the high 64 bits of the 128-bit product with the
  capacity.
\<close>

definition x9_load_idx :: "x9_inbox \<Rightarrow> bool \<Rightarrow> u64" where
  "x9_load_idx inbox rd =
     (let low_bits = constant inbox * (if rd then read_idx inbox else write_idx inbox)
      in ucast (drop_bit 64 ((ucast low_bits :: u128) * ucast (sz inbox))))"


section \<open>Construction\<close>

definition empty_slot :: "u64 \<Rightarrow> x9_slot" where
  "empty_slot m = \<lparr>slot_has_data = False, msg_written = False, shared = False,
                   payload = replicate (unat m) 0\<rparr>"

text \<open>
  \<^verbatim>\<open>x9_create_inbox\<close>. \<open>None\<close> is the NULL pointer. The structure is zeroed by
  \<^verbatim>\<open>memset\<close> and the slots by \<^verbatim>\<open>calloc\<close>; the name is copied up to its terminating
  NUL (\<^verbatim>\<open>strlen\<close>).
\<close>

definition x9_create_inbox :: "x9_alloc \<Rightarrow> u64 \<Rightarrow> string \<Rightarrow> u64 \<Rightarrow> x9_inbox option" where
  "x9_create_inbox al n nm m =
     (if \<not> (n > 0 \<and> \<not> (n mod 2 \<noteq> 0)) then None
      else if \<not> alloc_struct al then None
      else if \<not> alloc_name al then None
      else if \<not> alloc_array al then None
      else Some \<lparr>read_idx = 0, write_idx = 0, sz = n, msg_sz = m,
                  constant = 0xFFFFFFFFFFFFFFFF div n + 1,
                  msgs = replicate (unat n) (empty_slot m),
                  name = takeWhile (\<lambda>c. c \<noteq> CHR 0x00) nm\<rparr>)"

definition x9_inbox_is_valid :: "x9_inbox option \<Rightarrow> bool" where
  "x9_inbox_is_valid inbox = (\<not> (None = inbox))"

definition alloc_ok :: x9_alloc where
  "alloc_ok = \<lparr>alloc_struct = True, alloc_name = True, alloc_array = True\<rparr>"

section \<open>Slot access and the atomic operations on a slot\<close>

text \<open>
  \<^verbatim>\<open>x9_header_ptr\<close> addresses slot \<open>idx\<close> of the \<^verbatim>\<open>msgs\<close> array. The index computed
  by \<open>x9_load_idx\<close> is below the capacity (lemma \<open>x9_load_idx_less\<close> below), so the
  access stays inside the array of a well-formed inbox.
\<close>

definition x9_header_ptr :: "x9_inbox \<Rightarrow> u64 \<Rightarrow> x9_slot" where
  "x9_header_ptr inbox idx = msgs inbox ! unat idx"

definition header_store :: "u64 \<Rightarrow> (x9_slot \<Rightarrow> x9_slot) \<Rightarrow> x9_inbox \<Rightarrow> x9_inbox" where
  "header_store idx f inbox =
     inbox\<lparr>msgs := (msgs inbox)[unat idx := f (x9_header_ptr inbox idx)]\<rparr>"

text \<open>
  \<^verbatim>\<open>memcpy(dst, src, n)\<close>: the first \<open>n\<close> bytes of \<open>dst\<close> are replaced by those of
  \<open>src\<close>. In C both regions must hold at least \<open>n\<close> bytes; the theorems below state
  their results for callers that respect this.
\<close>

definition memcpy :: "byte list \<Rightarrow> byte list \<Rightarrow> u64 \<Rightarrow> byte list" where
  "memcpy dst src n = take (unat n) src @ drop (unat n) dst"

text \<open>
  \<^verbatim>\<open>atomic_compare_exchange\<close> on a flag with expected value \<open>f\<close> and desired value
  \<open>True\<close>: the result tells whether the exchange took place. The weak form, which
  \<^verbatim>\<open>x9_write_to_inbox_spin\<close> uses, may in C also fail when the flag has the expected
  value; here an exchange fails only when the flag differs from the expected value.
\<close>

definition cas_slot_has_data :: "u64 \<Rightarrow> bool \<Rightarrow> x9_inbox \<Rightarrow> bool \<times> x9_inbox" where
  "cas_slot_has_data idx f inbox =
     (if slot_has_data (x9_header_ptr inbox idx) = f
      then (True, header_store idx (\<lambda>h. h\<lparr>slot_has_data := True\<rparr>) inbox)
      else (False, inbox))"

definition cas_shared :: "u64 \<Rightarrow> bool \<Rightarrow> x9_inbox \<Rightarrow> bool \<times> x9_inbox" where
  "cas_shared idx f inbox =
     (if shared (x9_header_ptr inbox idx) = f
      then (True, header_store idx (\<lambda>h. h\<lparr>shared := True\<rparr>) inbox)
      else (False, inbox))"

definition store_slot_has_data :: "u64 \<Rightarrow> bool \<Rightarrow> x9_inbox \<Rightarrow> x9_inbox" where
  "store_slot_has_data idx v = header_store idx (\<lambda>h. h\<lparr>slot_has_data := v\<rparr>)"

definition store_msg_written :: "u64 \<Rightarrow> bool \<Rightarrow> x9_inbox \<Rightarrow> x9_inbox" where
  "store_msg_written idx v = header_store idx (\<lambda>h. h\<lparr>msg_written := v\<rparr>)"

definition store_shared :: "u64 \<Rightarrow> bool \<Rightarrow> x9_inbox \<Rightarrow> x9_inbox" where
  "store_shared idx v = header_store idx (\<lambda>h. h\<lparr>shared := v\<rparr>)"

definition store_payload :: "u64 \<Rightarrow> byte list \<Rightarrow> u64 \<Rightarrow> x9_inbox \<Rightarrow> x9_inbox" where
  "store_payload idx msg n = header_store idx (\<lambda>h. h\<lparr>payload := memcpy (payload h) msg n\<rparr>)"

definition fetch_add_write_idx :: "x9_inbox \<Rightarrow> x9_inbox" where
  "fetch_add_write_idx inbox = inbox\<lparr>write_idx := write_idx inbox + 1\<rparr>"

definition fetch_add_read_idx :: "x9_inbox \<Rightarrow> x9_inbox" where
  "fetch_add_read_idx inbox = inbox\<lparr>read_idx := read_idx inbox + 1\<rparr>"

section \<open>Write operations\<close>

text \<open>
  The operations are modelled as one thread executes them, each atomic access taking
  effect in program order. A call returns its boolean result and the inbox after it.
\<close>

definition x9_write_to_inbox :: "x9_inbox \<Rightarrow> u64 \<Rightarrow> byte list \<Rightarrow> bool \<times> x9_inbox" where
  "x9_write_to_inbox inbox n msg =
     (let f = False;
          idx = x9_load_idx inbox False
      in case cas_slot_has_data idx f inbox of
           (True, inbox1) \<Rightarrow>
             (let inbox2 = store_payload idx msg n inbox1;
                  inbox3 = fetch_add_write_idx inbox2;
                  inbox4 = store_msg_written idx True inbox3
              in (True, inbox4))
         | (False, inbox1) \<Rightarrow> (False, inbox1))"



section \<open>Read operations\<close>

text \<open>
  A read takes the caller's output buffer and returns it as the call leaves it.
\<close>

definition x9_read_from_inbox :: "x9_inbox \<Rightarrow> u64 \<Rightarrow> byte list \<Rightarrow> bool \<times> x9_inbox \<times> byte list" where
  "x9_read_from_inbox inbox n outparam =
     (let idx = x9_load_idx inbox True;
          header = x9_header_ptr inbox idx
      in if slot_has_data header then
           if msg_written header then
             (let outparam' = memcpy outparam (payload header) n;
                  inbox1 = store_msg_written idx False inbox;
                  inbox2 = store_slot_has_data idx False inbox1;
                  inbox3 = fetch_add_read_idx inbox2
              in (True, inbox3, outparam'))
           else (False, inbox, outparam)
         else (False, inbox, outparam))"

definition x9_read_from_shared_inbox :: "x9_inbox \<Rightarrow> u64 \<Rightarrow> byte list \<Rightarrow> bool \<times> x9_inbox \<times> byte list" where
  "x9_read_from_shared_inbox inbox n outparam =
     (let f = False;
          idx = x9_load_idx inbox True
      in case cas_shared idx f inbox of
           (True, inbox1) \<Rightarrow>
             (let header = x9_header_ptr inbox1 idx
              in if slot_has_data header then
                   if msg_written header then
                     (let outparam' = memcpy outparam (payload header) n;
                          inbox2 = fetch_add_read_idx inbox1;
                          inbox3 = store_msg_written idx False inbox2;
                          inbox4 = store_slot_has_data idx False inbox3;
                          inbox5 = store_shared idx False inbox4
                      in (True, inbox5, outparam'))
                   else (False, store_shared idx False inbox1, outparam)
                 else (False, store_shared idx False inbox1, outparam))
         | (False, inbox1) \<Rightarrow> (False, inbox1, outparam))"

text \<open>
  The same function as the list of inbox states it passes through, one per atomic
  access that writes (the state at entry first): the order in which the compare-and-swap,
  the fetch-and-add and the three stores take effect.
\<close>

definition x9_read_from_shared_inbox_trace :: "x9_inbox \<Rightarrow> x9_inbox list" where
  "x9_read_from_shared_inbox_trace inbox =
     (let f = False;
          idx = x9_load_idx inbox True
      in case cas_shared idx f inbox of
           (True, inbox1) \<Rightarrow>
             (let header = x9_header_ptr inbox1 idx
              in if slot_has_data header then
                   if msg_written header then
                     (let inbox2 = fetch_add_read_idx inbox1;
                          inbox3 = store_msg_written idx False inbox2;
                          inbox4 = store_slot_has_data idx False inbox3;
                          inbox5 = store_shared idx False inbox4
                      in [inbox, inbox1, inbox2, inbox3, inbox4, inbox5])
                   else [inbox, inbox1, store_shared idx False inbox1]
                 else [inbox, inbox1, store_shared idx False inbox1])
         | (False, inbox1) \<Rightarrow> [inbox, inbox1])"

section \<open>Nodes\<close>

text \<open>
  A node stores references to inboxes. A reference is an address; \<open>NULL\<close> is the
  address 0.
\<close>

type_synonym x9_inbox_ptr = nat

definition NULL :: x9_inbox_ptr where
  "NULL = 0"

record x9_node =
  inboxes :: "x9_inbox_ptr list"
  n_inboxes :: u64
  node_name :: string

text \<open>
  The inner loop of \<^verbatim>\<open>x9_create_node\<close>, \<^verbatim>\<open>for (j = 0; j != k; ++j)\<close>: \<open>None\<close> is the
  jump to \<^verbatim>\<open>node_multiple_equal_inboxes\<close>.
\<close>

function node_inner :: "u64 \<Rightarrow> u64 \<Rightarrow> x9_inbox_ptr \<Rightarrow> x9_inbox_ptr list \<Rightarrow> x9_inbox_ptr list option" where
  "node_inner j k inbox ibs =
     (if j \<noteq> k then
        (if inbox = ibs ! unat j then None
         else node_inner (j + 1) k inbox (ibs[unat k := inbox]))
      else Some ibs)"
  by pat_completeness auto
termination
proof (relation "measure (\<lambda>(j, k, inbox, ibs). unat (k - j))")
  show "wf (measure (\<lambda>(j, k, inbox, ibs). unat (k - j)))"
    by simp
next
  fix j k :: u64 and inbox :: x9_inbox_ptr and ibs :: "x9_inbox_ptr list"
  assume "j \<noteq> k"
  then have "k - j \<noteq> 0"
    by simp
  then have "unat (k - j - 1) < unat (k - j)"
    by (simp add: unat_minus_one unat_gt_0)
  then have "unat (k - (j + 1)) < unat (k - j)"
    by (simp only: diff_diff_eq)
  then show "((j + 1, k, inbox, ibs[unat k := inbox]), (j, k, inbox, ibs))
      \<in> measure (\<lambda>(j, k, inbox, ibs). unat (k - j))"
    by simp
qed

declare node_inner.simps [simp del]

text \<open>
  The outer loop, \<^verbatim>\<open>for (k = 0; k != n_inboxes; ++k)\<close>; \<^verbatim>\<open>va_arg\<close> reads the \<open>k\<close>-th
  variadic argument, which the caller must have passed.
\<close>

function node_outer :: "u64 \<Rightarrow> u64 \<Rightarrow> x9_inbox_ptr list \<Rightarrow> x9_inbox_ptr list \<Rightarrow> x9_inbox_ptr list option" where
  "node_outer k n args ibs =
     (if k \<noteq> n then
        (let inbox = args ! unat k
         in if k \<noteq> 0 then
              (case node_inner 0 k inbox ibs of
                 None \<Rightarrow> None
               | Some ibs' \<Rightarrow> node_outer (k + 1) n args ibs')
            else node_outer (k + 1) n args (ibs[unat k := inbox]))
      else Some ibs)"
  by pat_completeness auto
termination
proof (relation "measure (\<lambda>(k, n, args, ibs). unat (n - k))")
  show "wf (measure (\<lambda>(k, n, args, ibs). unat (n - k)))"
    by simp
next
  fix k n :: u64 and args ibs ibs' :: "x9_inbox_ptr list" and inbox :: x9_inbox_ptr
  assume "k \<noteq> n"
  then have "n - k \<noteq> 0"
    by simp
  then have "unat (n - k - 1) < unat (n - k)"
    by (simp add: unat_minus_one unat_gt_0)
  then have "unat (n - (k + 1)) < unat (n - k)"
    by (simp only: diff_diff_eq)
  then show "((k + 1, n, args, ibs'), (k, n, args, ibs))
      \<in> measure (\<lambda>(k, n, args, ibs). unat (n - k))"
    by simp
next
  fix k n :: u64 and args ibs :: "x9_inbox_ptr list" and inbox :: x9_inbox_ptr
  assume "k \<noteq> n"
  then have "n - k \<noteq> 0"
    by simp
  then have "unat (n - k - 1) < unat (n - k)"
    by (simp add: unat_minus_one unat_gt_0)
  then have "unat (n - (k + 1)) < unat (n - k)"
    by (simp only: diff_diff_eq)
  then show "((k + 1, n, args, ibs[unat k := inbox]), (k, n, args, ibs))
      \<in> measure (\<lambda>(k, n, args, ibs). unat (n - k))"
    by simp
qed

declare node_outer.simps [simp del]

definition x9_create_node :: "x9_alloc \<Rightarrow> string \<Rightarrow> u64 \<Rightarrow> x9_inbox_ptr list \<Rightarrow> x9_node option" where
  "x9_create_node al nm n args =
     (if \<not> (n > 0) then None
      else if \<not> alloc_struct al then None
      else if \<not> alloc_name al then None
      else if \<not> alloc_array al then None
      else (case node_outer 0 n args (replicate (unat n) NULL) of
              None \<Rightarrow> None
            | Some ibs \<Rightarrow> Some \<lparr>inboxes = ibs, n_inboxes = n,
                                node_name = takeWhile (\<lambda>c. c \<noteq> CHR 0x00) nm\<rparr>))"

definition x9_node_is_valid :: "x9_node option \<Rightarrow> bool" where
  "x9_node_is_valid node = (\<not> (None = node))"

section \<open>Auxiliary notions and example states\<close>

text \<open>
  The slot index that the index computation assigns to the producer counter value \<open>c\<close>.
\<close>

definition ticket_idx :: "x9_inbox \<Rightarrow> u64 \<Rightarrow> u64" where
  "ticket_idx inbox c = x9_load_idx (inbox\<lparr>write_idx := c\<rparr>) False"

text \<open>
  A fresh inbox of capacity 2 for messages of 2 bytes; the same inbox after two
  successful writes; and a state that arises with two shared consumers: both slots were
  written, one consumer holds slot 0 (it has set \<^verbatim>\<open>shared\<close> and not yet copied), the
  other has already drained slot 1.
\<close>

definition example_inbox :: x9_inbox where
  "example_inbox = the (x9_create_inbox alloc_ok 2 ''ibx'' 2)"

definition example_full_inbox :: x9_inbox where
  "example_full_inbox =
     snd (x9_write_to_inbox (snd (x9_write_to_inbox example_inbox 2 [1, 2])) 2 [3, 4])"

definition example_contended_inbox :: x9_inbox where
  "example_contended_inbox =
     example_full_inbox\<lparr>read_idx := 2,
       msgs := [\<lparr>slot_has_data = True, msg_written = True, shared = True, payload = [1, 2]\<rparr>,
                \<lparr>slot_has_data = False, msg_written = False, shared = False, payload = [3, 4]\<rparr>]\<rparr>"

text \<open>
  A client that calls the non-blocking operations one after the other on the same inbox:
  the calls with their arguments, and what each call returned (for a read, together with
  the output buffer as the call left it).
\<close>

datatype x9_call = Write u64 "byte list" | Read u64 "byte list"

datatype x9_return = Written bool | ReadInto bool "byte list"

fun x9_run :: "x9_inbox \<Rightarrow> x9_call list \<Rightarrow> x9_return list \<times> x9_inbox" where
  "x9_run inbox [] = ([], inbox)"
| "x9_run inbox (Write n msg # calls) =
     (let (r, inbox') = x9_write_to_inbox inbox n msg;
          (rs, inbox'') = x9_run inbox' calls
      in (Written r # rs, inbox''))"
| "x9_run inbox (Read n outparam # calls) =
     (let (r, inbox', outparam') = x9_read_from_inbox inbox n outparam;
          (rs, inbox'') = x9_run inbox' calls
      in (ReadInto r outparam' # rs, inbox''))"

text \<open>
  The contract of the header for a call: the \<^verbatim>\<open>msg_sz\<close> argument is the message size of
  the inbox and the buffer holds that many bytes. Outside of it \<^verbatim>\<open>memcpy\<close> overruns the
  slot or the buffer.
\<close>

definition call_in_contract :: "x9_inbox \<Rightarrow> x9_call \<Rightarrow> bool" where
  "call_in_contract inbox c =
     (case c of
        Write n msg \<Rightarrow> n = msg_sz inbox \<and> length msg = unat n
      | Read n outparam \<Rightarrow> n = msg_sz inbox \<and> length outparam = unat n)"

text \<open>The number of slots whose \<^verbatim>\<open>slot_has_data\<close> flag is set.\<close>

definition occupied_slots :: "x9_inbox \<Rightarrow> nat" where
  "occupied_slots inbox = length (filter slot_has_data (msgs inbox))"

text \<open>
  The inbox holds the messages \<open>pending\<close>, oldest first: the slots of the tickets from
  the consumer counter up to the producer counter are pairwise different, are marked as
  written, and carry these messages.
\<close>

definition x9_holds :: "x9_inbox \<Rightarrow> byte list list \<Rightarrow> bool" where
  "x9_holds inbox pending \<longleftrightarrow>
     length (msgs inbox) = unat (sz inbox) \<and> sz inbox \<noteq> 0 \<and>
     write_idx inbox = read_idx inbox + of_nat (length pending) \<and>
     (\<forall>i<length pending.
        slot_has_data (x9_header_ptr inbox (ticket_idx inbox (read_idx inbox + of_nat i))) \<and>
        msg_written (x9_header_ptr inbox (ticket_idx inbox (read_idx inbox + of_nat i))) \<and>
        payload (x9_header_ptr inbox (ticket_idx inbox (read_idx inbox + of_nat i))) = pending ! i) \<and>
     (\<forall>i<length pending. \<forall>j<i.
        ticket_idx inbox (read_idx inbox + of_nat i) \<noteq> ticket_idx inbox (read_idx inbox + of_nat j)) \<and>
     (\<forall>s\<in>set (msgs inbox). length (payload s) = unat (msg_sz inbox)) \<and>
     (\<forall>m\<in>set pending. length m = unat (msg_sz inbox))"

section \<open>The index computation\<close>

lemma unat_high64:
  fixes a b :: u64
  shows "unat (ucast (drop_bit 64 ((ucast a :: u128) * ucast b)) :: u64) = (unat a * unat b) div 2 ^ 64"
proof -
  have la: "unat a < 2 ^ 64" and lb: "unat b < 2 ^ 64"
    using unsigned_less [of a] unsigned_less [of b] by simp_all
  have "unat a * unat b < 2 ^ 64 * 2 ^ 64"
    using la lb by (rule mult_strict_mono) simp_all
  then have prod: "unat a * unat b < 2 ^ 128"
    by simp
  have ua: "unat (ucast a :: u128) = unat a" and ub: "unat (ucast b :: u128) = unat b"
    using la lb by (simp_all add: unsigned_ucast_eq take_bit_nat_eq_self)
  have "unat ((ucast a :: u128) * ucast b) = (unat a * unat b) mod 2 ^ 128"
    by (simp add: unat_word_ariths ua ub)
  with prod have m: "unat ((ucast a :: u128) * ucast b) = unat a * unat b"
    by simp
  have "unat (drop_bit 64 ((ucast a :: u128) * ucast b)) = drop_bit 64 (unat ((ucast a :: u128) * ucast b))"
    by (rule unat_drop_bit_eq)
  also have "\<dots> = unat ((ucast a :: u128) * ucast b) div 2 ^ 64"
    by (rule drop_bit_eq_div)
  finally have d: "unat (drop_bit 64 ((ucast a :: u128) * ucast b)) = (unat a * unat b) div 2 ^ 64"
    by (simp only: m)
  have "(unat a * unat b) div 2 ^ 64 < 2 ^ 64"
    using prod by (simp add: less_mult_imp_div_less)
  then show ?thesis
    by (simp add: unsigned_ucast_eq d take_bit_nat_eq_self)
qed

lemma unat_x9_load_idx:
  "unat (x9_load_idx inbox rd) =
     (unat (constant inbox * (if rd then read_idx inbox else write_idx inbox)) * unat (sz inbox)) div 2 ^ 64"
  by (simp add: x9_load_idx_def Let_def unat_high64)

lemma x9_load_idx_less:
  assumes "sz inbox \<noteq> 0"
  shows "unat (x9_load_idx inbox rd) < unat (sz inbox)"
proof -
  let ?l = "unat (constant inbox * (if rd then read_idx inbox else write_idx inbox))"
  have "?l < 2 ^ 64"
    using unsigned_less [of "constant inbox * (if rd then read_idx inbox else write_idx inbox)"] by simp
  moreover have "0 < unat (sz inbox)"
    using assms by (simp add: unat_gt_0)
  ultimately have "?l * unat (sz inbox) < 2 ^ 64 * unat (sz inbox)"
    by simp
  then have "(?l * unat (sz inbox)) div 2 ^ 64 < unat (sz inbox)"
    by (simp add: less_mult_imp_div_less mult.commute)
  then show ?thesis
    by (simp only: unat_x9_load_idx)
qed

lemma x9_load_idx_in_range:
  assumes "length (msgs inbox) = unat (sz inbox)" and "sz inbox \<noteq> 0"
  shows "unat (x9_load_idx inbox rd) < length (msgs inbox)"
  using x9_load_idx_less [OF assms(2), of rd] assms(1) by simp

lemma ticket_idx_in_range:
  assumes "length (msgs inbox) = unat (sz inbox)" and "sz inbox \<noteq> 0"
  shows "unat (ticket_idx inbox c) < length (msgs inbox)"
  unfolding ticket_idx_def
  using x9_load_idx_in_range [of "inbox\<lparr>write_idx := c\<rparr>" False] assms by simp

lemma memcpy_whole:
  "length src = unat n \<Longrightarrow> length dst = unat n \<Longrightarrow> memcpy dst src n = src"
  by (simp add: memcpy_def)

text \<open>
  C1. The claim is that for every legal capacity and every 64-bit counter the index
  computed with the constant of \<open>x9_create_inbox\<close> is the remainder of the counter by
  the capacity. The code evaluated at two legal capacities that are not powers of two.
  At capacity 6 and counter \<open>2^63\<close> the inbox is valid, the computed index is 3, and the
  remainder of \<open>2^63\<close> by 6 is 2. At capacity \<open>3 * 2^20\<close> and counter \<open>2^43\<close> the inbox
  is valid, the computed index is 2097153, and the remainder is 2097152.
\<close>

theorem x9_load_idx_not_remainder:
  "x9_inbox_is_valid (x9_create_inbox alloc_ok 6 ''ibx'' 8) \<and>
   x9_load_idx ((the (x9_create_inbox alloc_ok 6 ''ibx'' 8))\<lparr>write_idx := 2 ^ 63\<rparr>) False = 3 \<and>
   (2 ^ 63 :: u64) mod 6 = 2 \<and>
   x9_inbox_is_valid (x9_create_inbox alloc_ok 3145728 ''ibx'' 8) \<and>
   x9_load_idx ((the (x9_create_inbox alloc_ok 3145728 ''ibx'' 8))\<lparr>write_idx := 2 ^ 43\<rparr>) False = 2097153 \<and>
   (2 ^ 43 :: u64) mod 3145728 = 2097152"
  by (simp add: x9_inbox_is_valid_def x9_create_inbox_def alloc_ok_def x9_load_idx_def)

section \<open>The constructor of an inbox\<close>

lemma div_pred:
  fixes n N :: nat
  assumes "0 < N"
  shows "(N - 1) div n + 1 = (if n dvd N then N div n else N div n + 1)"
proof -
  obtain m where N: "N = Suc m"
    using assms by (cases N) simp_all
  show ?thesis
    unfolding N by (simp add: div_Suc dvd_eq_mod_eq_0)
qed

lemma legal_capacity:
  fixes C :: u64
  assumes "C \<noteq> 0" "C mod 2 = 0"
  shows "2 \<le> unat C" and "even (unat C)"
proof -
  have m: "unat C mod 2 = 0"
    using assms(2) by (simp add: word_unat_eq_iff unat_mod)
  then show "even (unat C)"
    by presburger
  have "0 < unat C"
    using assms(1) by (simp add: unat_gt_0)
  with m show "2 \<le> unat C"
    by presburger
qed

lemma unat_constant:
  assumes "x9_create_inbox al C nm M = Some inbox"
  shows "unat (constant inbox) = (2 ^ 64 - 1) div unat C + 1"
proof -
  from assms have C: "C \<noteq> 0" "C mod 2 = 0" and k: "constant inbox = 0xFFFFFFFFFFFFFFFF div C + 1"
    by (auto simp: x9_create_inbox_def word_gt_0 split: if_splits)
  have C2: "2 \<le> unat C"
    using C by (rule legal_capacity)
  have "(2 ^ 64 - 1 :: nat) div unat C \<le> (2 ^ 64 - 1) div 2"
    using C2 by (rule div_le_mono2 [rotated]) simp
  then have small: "(2 ^ 64 - 1 :: nat) div unat C + 1 < 2 ^ 64"
    by simp
  have d: "unat (0xFFFFFFFFFFFFFFFF div C) = (2 ^ 64 - 1) div unat C"
    by (simp add: unat_div)
  have "unat (0xFFFFFFFFFFFFFFFF div C + 1) = (unat (0xFFFFFFFFFFFFFFFF div C) + 1) mod 2 ^ 64"
    by (simp add: unat_word_ariths)
  also have "\<dots> = (2 ^ 64 - 1) div unat C + 1"
    using small by (simp only: d mod_less)
  finally show ?thesis
    by (simp only: k)
qed

text \<open>
  C3 as stated, that the stored constant is \<open>\<lfloor>2^64 / C\<rfloor> + 1\<close> also for powers of two,
  fails at capacity 2: the constant is \<open>2^63\<close>, not \<open>2^63 + 1\<close>.
\<close>

theorem x9_create_inbox_constant_counterexample:
  "x9_inbox_is_valid (x9_create_inbox alloc_ok 2 ''ibx'' 8) \<and>
   unat (constant (the (x9_create_inbox alloc_ok 2 ''ibx'' 8))) \<noteq> 2 ^ 64 div unat (2 :: u64) + 1"
  by (simp add: x9_inbox_is_valid_def x9_create_inbox_def alloc_ok_def)

text \<open>
  C3, amended. For every inbox that \<open>x9_create_inbox\<close> returns, the stored constant is
  \<open>\<lfloor>(2^64 - 1) / C\<rfloor> + 1\<close>. This is \<open>\<lfloor>2^64 / C\<rfloor> + 1\<close> exactly when the capacity does not
  divide \<open>2^64\<close>, that is, when it is not a power of two; for a power of two the
  constant is \<open>2^64 / C\<close>.
\<close>

theorem x9_create_inbox_constant:
  assumes "x9_create_inbox al C nm M = Some inbox"
  shows "unat (constant inbox) = (2 ^ 64 - 1) div unat C + 1 \<and>
         (unat (constant inbox) = 2 ^ 64 div unat C + 1 \<longleftrightarrow> \<not> unat C dvd 2 ^ 64) \<and>
         (unat C dvd 2 ^ 64 \<longrightarrow> unat (constant inbox) = 2 ^ 64 div unat C)"
proof -
  have k: "unat (constant inbox) = (2 ^ 64 - 1) div unat C + 1"
    using assms by (rule unat_constant)
  have "(2 ^ 64 - 1) div unat C + 1 =
        (if unat C dvd 2 ^ 64 then 2 ^ 64 div unat C else 2 ^ 64 div unat C + 1)"
    by (rule div_pred) simp
  then show ?thesis
    unfolding k by (simp split: if_splits)
qed

theorem x9_create_inbox_constant_witness:
  "x9_create_inbox alloc_ok 6 ''ibx'' 8 \<noteq> None \<and>
   unat (constant (the (x9_create_inbox alloc_ok 6 ''ibx'' 8))) = 2 ^ 64 div 6 + 1"
proof -
  have h: "x9_create_inbox alloc_ok 6 ''ibx'' 8 = Some (the (x9_create_inbox alloc_ok 6 ''ibx'' 8))"
    by (simp add: x9_create_inbox_def alloc_ok_def)
  have "\<not> (6 :: nat) dvd 2 ^ 64"
    by simp
  with x9_create_inbox_constant [OF h] have "unat (constant (the (x9_create_inbox alloc_ok 6 ''ibx'' 8))) = 2 ^ 64 div 6 + 1"
    by simp
  moreover have "x9_create_inbox alloc_ok 6 ''ibx'' 8 \<noteq> None"
    by (simp add: x9_create_inbox_def alloc_ok_def)
  ultimately show ?thesis
    by (rule conjI [rotated])
qed

text \<open>
  C8 as stated, that an empty name makes \<open>x9_create_inbox\<close> return NULL, fails: with a
  legal capacity and successful allocations the empty name gives a valid inbox.
\<close>

theorem x9_create_inbox_empty_name_counterexample:
  "x9_inbox_is_valid (x9_create_inbox alloc_ok 2 [] 8)"
  by (simp add: x9_inbox_is_valid_def x9_create_inbox_def alloc_ok_def)

text \<open>
  C8, amended. \<open>x9_create_inbox\<close> returns NULL (and \<open>x9_inbox_is_valid\<close> yields false)
  exactly when the capacity is zero or odd or one of the three allocations fails; for
  every other input, whatever the name, it returns a valid inbox.
\<close>

theorem x9_create_inbox_null_iff:
  "\<not> x9_inbox_is_valid (x9_create_inbox al C nm M) \<longleftrightarrow>
     C = 0 \<or> odd (unat C) \<or> \<not> alloc_struct al \<or> \<not> alloc_name al \<or> \<not> alloc_array al"
proof -
  have "C mod 2 = 0 \<longleftrightarrow> even (unat C)"
    by (simp add: word_unat_eq_iff unat_mod even_iff_mod_2_eq_zero)
  then show ?thesis
    by (auto simp: x9_inbox_is_valid_def x9_create_inbox_def word_gt_0)
qed

theorem x9_create_inbox_null_iff_witness:
  "x9_inbox_is_valid (x9_create_inbox alloc_ok 4 [] 16) \<and>
   \<not> x9_inbox_is_valid (x9_create_inbox alloc_ok 3 ''ibx'' 16) \<and>
   \<not> x9_inbox_is_valid (x9_create_inbox (alloc_ok\<lparr>alloc_array := False\<rparr>) 4 ''ibx'' 16)"
  using x9_create_inbox_null_iff [of alloc_ok 4 "[]" 16]
    x9_create_inbox_null_iff [of alloc_ok 3 "''ibx''" 16]
    x9_create_inbox_null_iff [of "alloc_ok\<lparr>alloc_array := False\<rparr>" 4 "''ibx''" 16]
  by (simp add: alloc_ok_def)

section \<open>Non-blocking write and read: the paths that return false\<close>

lemmas x9_atomic_defs = cas_slot_has_data_def cas_shared_def store_slot_has_data_def
  store_msg_written_def store_shared_def store_payload_def fetch_add_write_idx_def
  fetch_add_read_idx_def header_store_def x9_header_ptr_def

text \<open>
  C6. When the compare-and-swap of \<open>x9_write_to_inbox\<close> on \<^verbatim>\<open>slot_has_data\<close> fails, and
  only then, the call returns false; the inbox it leaves is the inbox it found (producer
  counter, all flags and all payloads), so that the next call computes the same index.
\<close>

theorem x9_write_to_inbox_failure:
  "(\<not> fst (x9_write_to_inbox inbox n msg) \<longleftrightarrow>
      \<not> fst (cas_slot_has_data (x9_load_idx inbox False) False inbox)) \<and>
   (\<not> fst (x9_write_to_inbox inbox n msg) \<longrightarrow>
      snd (x9_write_to_inbox inbox n msg) = inbox \<and>
      x9_load_idx (snd (x9_write_to_inbox inbox n msg)) False = x9_load_idx inbox False)"
  by (simp add: x9_write_to_inbox_def cas_slot_has_data_def Let_def)

theorem x9_write_to_inbox_failure_witness:
  "\<not> fst (x9_write_to_inbox example_full_inbox 2 [5, 6]) \<and>
   snd (x9_write_to_inbox example_full_inbox 2 [5, 6]) = example_full_inbox \<and>
   x9_load_idx (snd (x9_write_to_inbox example_full_inbox 2 [5, 6])) False = 0"
proof -
  have f: "\<not> fst (cas_slot_has_data (x9_load_idx example_full_inbox False) False example_full_inbox)"
    unfolding example_full_inbox_def example_inbox_def by code_simp
  have i: "x9_load_idx example_full_inbox False = 0"
    unfolding example_full_inbox_def example_inbox_def by code_simp
  from x9_write_to_inbox_failure [of example_full_inbox 2 "[5, 6]"] f i show ?thesis
    by simp
qed

lemma payload_shared_update:
  "payload ((xs[i := (xs ! i)\<lparr>shared := v\<rparr>]) ! i) = payload (xs ! i)"
  by (cases "i < length xs") (simp_all add: list_update_beyond)

text \<open>
  C10. A non-blocking read that returns false leaves the caller's output buffer as it was;
  a read that returns true leaves in it the result of copying the slot's payload.
\<close>

theorem x9_read_not_read_outparam:
  "(\<not> fst (x9_read_from_inbox inbox n outparam) \<longrightarrow>
      snd (snd (x9_read_from_inbox inbox n outparam)) = outparam) \<and>
   (\<not> fst (x9_read_from_shared_inbox inbox n outparam) \<longrightarrow>
      snd (snd (x9_read_from_shared_inbox inbox n outparam)) = outparam) \<and>
   (fst (x9_read_from_inbox inbox n outparam) \<longrightarrow>
      snd (snd (x9_read_from_inbox inbox n outparam)) =
        memcpy outparam (payload (x9_header_ptr inbox (x9_load_idx inbox True))) n) \<and>
   (fst (x9_read_from_shared_inbox inbox n outparam) \<longrightarrow>
      snd (snd (x9_read_from_shared_inbox inbox n outparam)) =
        memcpy outparam (payload (x9_header_ptr inbox (x9_load_idx inbox True))) n)"
  by (simp add: x9_read_from_inbox_def x9_read_from_shared_inbox_def Let_def x9_atomic_defs
      payload_shared_update split: prod.splits if_splits)

theorem x9_read_not_read_outparam_witness:
  "\<not> fst (x9_read_from_inbox example_inbox 2 [7, 7]) \<and>
   snd (snd (x9_read_from_inbox example_inbox 2 [7, 7])) = [7, 7] \<and>
   \<not> fst (x9_read_from_shared_inbox example_inbox 2 [7, 7]) \<and>
   snd (snd (x9_read_from_shared_inbox example_inbox 2 [7, 7])) = [7, 7] \<and>
   fst (x9_read_from_inbox example_full_inbox 2 [7, 7]) \<and>
   snd (snd (x9_read_from_inbox example_full_inbox 2 [7, 7])) = [1, 2] \<and>
   fst (x9_read_from_shared_inbox example_full_inbox 2 [7, 7]) \<and>
   snd (snd (x9_read_from_shared_inbox example_full_inbox 2 [7, 7])) = [1, 2]"
proof -
  have a: "\<not> fst (x9_read_from_inbox example_inbox 2 [7, 7])"
    and b: "\<not> fst (x9_read_from_shared_inbox example_inbox 2 [7, 7])"
    unfolding example_inbox_def by code_simp+
  have c: "fst (x9_read_from_inbox example_full_inbox 2 [7, 7])"
    and d: "fst (x9_read_from_shared_inbox example_full_inbox 2 [7, 7])"
    unfolding example_full_inbox_def example_inbox_def by code_simp+
  have e: "memcpy [7, 7] (payload (x9_header_ptr example_full_inbox (x9_load_idx example_full_inbox True))) 2 = [1, 2]"
    unfolding example_full_inbox_def example_inbox_def by code_simp
  from x9_read_not_read_outparam [of example_inbox 2 "[7, 7]"]
    x9_read_not_read_outparam [of example_full_inbox 2 "[7, 7]"] a b c d e
  show ?thesis
    by simp
qed

section \<open>The shared non-blocking read\<close>

lemma shared_False_id:
  "\<not> shared h \<Longrightarrow> h\<lparr>shared := False\<rparr> = h"
  by (cases h) simp

lemma shared_set_reset:
  assumes "\<not> shared (x9_header_ptr inbox idx)"
  shows "store_shared idx False (snd (cas_shared idx False inbox)) = inbox"
proof (cases "unat idx < length (msgs inbox)")
  case True
  then show ?thesis
    using assms by (simp add: x9_atomic_defs shared_False_id)
next
  case False
  then show ?thesis
    using assms by (simp add: x9_atomic_defs list_update_beyond)
qed

text \<open>
  C7 as stated fails where the compare-and-swap on \<^verbatim>\<open>shared\<close> fails: the call returns
  false and the flag, held by the competing consumer, is still true on return.
\<close>

theorem x9_read_from_shared_inbox_counterexample:
  "\<not> fst (x9_read_from_shared_inbox example_contended_inbox 2 [0, 0]) \<and>
   shared (x9_header_ptr (fst (snd (x9_read_from_shared_inbox example_contended_inbox 2 [0, 0])))
             (x9_load_idx example_contended_inbox True))"
  unfolding example_contended_inbox_def example_full_inbox_def example_inbox_def by code_simp

text \<open>
  C7, amended. On a well-formed inbox \<open>x9_read_from_shared_inbox\<close> changes the consumer
  counter only on the path that returns true, by one, in a step before and after which the
  \<^verbatim>\<open>shared\<close> flag of the slot is set (the lock is held). Whenever it returns false the
  inbox is left as it was found: the consumer counter, all flags and all payloads are
  unchanged, and \<^verbatim>\<open>shared\<close> has its value at entry, which is true exactly when the
  compare-and-swap failed (the lock belongs to another consumer and is not released by this
  call) and false when this call had taken the lock. When it returns true the counter has
  advanced by one and \<^verbatim>\<open>shared\<close> is false again.
\<close>

theorem x9_read_from_shared_inbox_protocol:
  assumes "length (msgs inbox) = unat (sz inbox)" and "sz inbox \<noteq> 0"
  shows "last (x9_read_from_shared_inbox_trace inbox) =
           fst (snd (x9_read_from_shared_inbox inbox n outparam)) \<and>
         successively
           (\<lambda>s s'. read_idx s' \<noteq> read_idx s \<longrightarrow>
              fst (x9_read_from_shared_inbox inbox n outparam) \<and>
              read_idx s' = read_idx s + 1 \<and>
              shared (x9_header_ptr s (x9_load_idx inbox True)) \<and>
              shared (x9_header_ptr s' (x9_load_idx inbox True)))
           (x9_read_from_shared_inbox_trace inbox) \<and>
         (\<not> fst (x9_read_from_shared_inbox inbox n outparam) \<longrightarrow>
            fst (snd (x9_read_from_shared_inbox inbox n outparam)) = inbox \<and>
            (shared (x9_header_ptr inbox (x9_load_idx inbox True)) \<longleftrightarrow>
               \<not> fst (cas_shared (x9_load_idx inbox True) False inbox))) \<and>
         (fst (x9_read_from_shared_inbox inbox n outparam) \<longrightarrow>
            read_idx (fst (snd (x9_read_from_shared_inbox inbox n outparam))) = read_idx inbox + 1 \<and>
            \<not> shared (x9_header_ptr (fst (snd (x9_read_from_shared_inbox inbox n outparam)))
                        (x9_load_idx inbox True)))"
proof -
  let ?idx = "x9_load_idx inbox True"
  have lt: "unat ?idx < length (msgs inbox)"
    using x9_load_idx_less [OF assms(2), of True] assms(1) by simp
  show ?thesis
  proof (cases "shared (x9_header_ptr inbox ?idx)")
    case True
    then show ?thesis
      by (simp add: x9_read_from_shared_inbox_def x9_read_from_shared_inbox_trace_def
          cas_shared_def Let_def)
  next
    case False
    note reset = shared_set_reset [OF False]
    have cas: "cas_shared ?idx False inbox = (True, snd (cas_shared ?idx False inbox))"
      using False by (simp add: cas_shared_def)
    show ?thesis
    proof (cases "slot_has_data (x9_header_ptr inbox ?idx) \<and> msg_written (x9_header_ptr inbox ?idx)")
      case ready: True
      show ?thesis
        using False ready lt
        by (simp add: x9_read_from_shared_inbox_def x9_read_from_shared_inbox_trace_def
            Let_def x9_atomic_defs)
    next
      case notready: False
      have r: "x9_read_from_shared_inbox inbox n outparam = (False, inbox, outparam)"
        using False notready lt reset
        by (auto simp: x9_read_from_shared_inbox_def Let_def cas x9_header_ptr_def cas_shared_def header_store_def)
      have t: "x9_read_from_shared_inbox_trace inbox = [inbox, snd (cas_shared ?idx False inbox), inbox]"
        using False notready lt reset
        by (auto simp: x9_read_from_shared_inbox_trace_def Let_def cas x9_header_ptr_def cas_shared_def header_store_def)
      show ?thesis
        using False by (simp add: r t cas_shared_def header_store_def)
    qed
  qed
qed


theorem x9_read_from_shared_inbox_protocol_witness:
  "length (msgs example_full_inbox) = unat (sz example_full_inbox) \<and>
   sz example_full_inbox \<noteq> 0 \<and>
   fst (x9_read_from_shared_inbox example_full_inbox 2 [0, 0]) \<and>
   read_idx (fst (snd (x9_read_from_shared_inbox example_full_inbox 2 [0, 0]))) =
     read_idx example_full_inbox + 1 \<and>
   length (msgs example_inbox) = unat (sz example_inbox) \<and>
   sz example_inbox \<noteq> 0 \<and>
   \<not> fst (x9_read_from_shared_inbox example_inbox 2 [0, 0]) \<and>
   fst (snd (x9_read_from_shared_inbox example_inbox 2 [0, 0])) = example_inbox"
proof -
  have l: "length (msgs example_full_inbox) = unat (sz example_full_inbox)"
    and z: "sz example_full_inbox \<noteq> 0"
    and t: "fst (x9_read_from_shared_inbox example_full_inbox 2 [0, 0])"
    unfolding example_full_inbox_def example_inbox_def by code_simp+
  have l': "length (msgs example_inbox) = unat (sz example_inbox)"
    and z': "sz example_inbox \<noteq> 0"
    and f: "\<not> fst (x9_read_from_shared_inbox example_inbox 2 [0, 0])"
    unfolding example_inbox_def by code_simp+
  from x9_read_from_shared_inbox_protocol [OF l z, of 2 "[0, 0]"] t
  have a: "read_idx (fst (snd (x9_read_from_shared_inbox example_full_inbox 2 [0, 0]))) =
     read_idx example_full_inbox + 1"
    by blast
  from x9_read_from_shared_inbox_protocol [OF l' z', of 2 "[0, 0]"] f
  have b: "fst (snd (x9_read_from_shared_inbox example_inbox 2 [0, 0])) = example_inbox"
    by blast
  from l z t a l' z' f b show ?thesis
    by blast
qed


section \<open>The spinning write\<close>


lemma ticket_idx_write_idx [simp]:
  "ticket_idx (inbox\<lparr>write_idx := c\<rparr>) c' = ticket_idx inbox c'"
  by (simp add: ticket_idx_def x9_load_idx_def)

lemma x9_header_ptr_write_idx [simp]:
  "x9_header_ptr (inbox\<lparr>write_idx := c\<rparr>) idx = x9_header_ptr inbox idx"
  by (simp add: x9_header_ptr_def)














section \<open>The constructor of a node\<close>

lemma unat_succ_less:
  fixes j k :: u64
  assumes "unat j < unat k"
  shows "unat (j + 1) = Suc (unat j)"
proof -
  have "unat k < 2 ^ 64"
    using unsigned_less [of k] by simp
  with assms have "unat j + unat (1 :: u64) < 2 ^ LENGTH(64)"
    by simp
  then have "unat (j + 1) = unat j + unat (1 :: u64)"
    by (simp only: unat_add_lem)
  then show ?thesis
    by simp
qed

lemma node_inner_result:
  assumes "unat j \<le> unat k" and "unat k < length ibs"
  shows "node_inner j k x ibs =
           (if \<exists>i. unat j \<le> i \<and> i < unat k \<and> ibs ! i = x then None
            else Some (if j = k then ibs else ibs[unat k := x]))"
  using assms
proof (induction j k x ibs rule: node_inner.induct)
  case (1 j k x ibs)
  show ?case
  proof (cases "j = k")
    case True
    then show ?thesis
      by (subst node_inner.simps) simp
  next
    case False
    with "1.prems"(1) have lt: "unat j < unat k"
      by (simp add: word_unat_eq_iff)
    have suc: "unat (j + 1) = Suc (unat j)"
      using lt by (rule unat_succ_less)
    show ?thesis
    proof (cases "x = ibs ! unat j")
      case True
      have "\<exists>i. unat j \<le> i \<and> i < unat k \<and> ibs ! i = x"
        using True lt by (intro exI [of _ "unat j"]) simp
      then show ?thesis
        using False True by (subst node_inner.simps) simp
    next
      case neq: False
      have ih: "node_inner (j + 1) k x (ibs[unat k := x]) =
           (if \<exists>i. unat (j + 1) \<le> i \<and> i < unat k \<and> ibs[unat k := x] ! i = x then None
            else Some (if j + 1 = k then ibs[unat k := x] else ibs[unat k := x, unat k := x]))"
        using "1.IH" [OF False neq] lt suc "1.prems"(2) by simp
      have ex: "(\<exists>i. unat (j + 1) \<le> i \<and> i < unat k \<and> ibs[unat k := x] ! i = x) \<longleftrightarrow>
                (\<exists>i. unat j \<le> i \<and> i < unat k \<and> ibs ! i = x)"
      proof
        assume "\<exists>i. unat (j + 1) \<le> i \<and> i < unat k \<and> ibs[unat k := x] ! i = x"
        then obtain i where "Suc (unat j) \<le> i" "i < unat k" "ibs[unat k := x] ! i = x"
          unfolding suc by blast
        then show "\<exists>i. unat j \<le> i \<and> i < unat k \<and> ibs ! i = x"
          by (intro exI [of _ i]) simp
      next
        assume "\<exists>i. unat j \<le> i \<and> i < unat k \<and> ibs ! i = x"
        then obtain i where i: "unat j \<le> i" "i < unat k" "ibs ! i = x"
          by blast
        with neq have "i \<noteq> unat j"
          by auto
        with i show "\<exists>i. unat (j + 1) \<le> i \<and> i < unat k \<and> ibs[unat k := x] ! i = x"
          unfolding suc by (intro exI [of _ i]) simp
      qed
      have "node_inner j k x ibs = node_inner (j + 1) k x (ibs[unat k := x])"
        using False neq by (subst node_inner.simps) simp
      also have "\<dots> = (if \<exists>i. unat j \<le> i \<and> i < unat k \<and> ibs ! i = x then None
                         else Some (ibs[unat k := x]))"
        unfolding ih ex by auto
      finally show ?thesis
        using False by auto
    qed
  qed
qed


lemma node_outer_result:
  assumes "unat k \<le> unat n" and "length args = unat n" and "length ibs = unat n"
    and "take (unat k) ibs = take (unat k) args" and "distinct (take (unat k) args)"
  shows "node_outer k n args ibs = (if distinct args then Some args else None)"
  using assms
proof (induction k n args ibs rule: node_outer.induct)
  case (1 k n args ibs)
  show ?case
  proof (cases "k = n")
    case True
    with "1.prems" have "ibs = args" "distinct args"
      by simp_all
    with True show ?thesis
      by (subst node_outer.simps) simp
  next
    case False
    with "1.prems"(1) have lt: "unat k < unat n"
      by (simp add: word_unat_eq_iff)
    have suc: "unat (k + 1) = Suc (unat k)"
      using lt by (rule unat_succ_less)
    let ?x = "args ! unat k"
    have tk: "take (Suc (unat k)) args = take (unat k) args @ [?x]"
      using lt "1.prems"(2) by (simp add: take_Suc_conv_app_nth)
    have tk': "take (Suc (unat k)) (ibs[unat k := ?x]) = take (unat k) args @ [?x]"
      using lt "1.prems"(3,4) by (simp add: take_Suc_conv_app_nth)
    have pre: "\<And>i. i < unat k \<Longrightarrow> ibs ! i = args ! i"
    proof -
      fix i assume "i < unat k"
      then have "ibs ! i = take (unat k) ibs ! i" "args ! i = take (unat k) args ! i"
        by simp_all
      with "1.prems"(4) show "ibs ! i = args ! i"
        by simp
    qed
    have mem: "?x \<in> set (take (unat k) args) \<longleftrightarrow> (\<exists>i. i < unat k \<and> ibs ! i = ?x)"
    proof
      assume "?x \<in> set (take (unat k) args)"
      then obtain i where "i < length (take (unat k) args)" "take (unat k) args ! i = ?x"
        by (auto simp: in_set_conv_nth)
      then have "i < unat k \<and> ibs ! i = ?x"
        using pre by simp
      then show "\<exists>i. i < unat k \<and> ibs ! i = ?x" ..
    next
      assume "\<exists>i. i < unat k \<and> ibs ! i = ?x"
      then obtain i where i: "i < unat k" "ibs ! i = ?x"
        by blast
      then have "take (unat k) args ! i = ?x" "i < length (take (unat k) args)"
        using pre lt "1.prems"(2) by simp_all
      then show "?x \<in> set (take (unat k) args)"
        by (metis nth_mem)
    qed
    show ?thesis
    proof (cases "?x \<in> set (take (unat k) args)")
      case dup: True
      then have "\<not> distinct (take (Suc (unat k)) args)"
        unfolding tk by simp
      then have nd: "\<not> distinct args"
        by (metis distinct_take)
      have k0: "k \<noteq> 0"
        using dup by auto
      have "node_inner 0 k ?x ibs = None"
        using dup lt "1.prems"(3) k0 by (subst node_inner_result) (simp_all add: mem)
      then show ?thesis
        using False k0 nd by (subst node_outer.simps) simp
    next
      case fresh: False
      have d': "distinct (take (unat (k + 1)) args)"
        unfolding suc tk using fresh "1.prems"(5) by simp
      have t': "take (unat (k + 1)) (ibs[unat k := ?x]) = take (unat (k + 1)) args"
        unfolding suc tk tk' ..
      have le': "unat (k + 1) \<le> unat n"
        unfolding suc using lt by simp
      have len': "length (ibs[unat k := ?x]) = unat n"
        using "1.prems"(3) by simp
      show ?thesis
      proof (cases "k = 0")
        case True
        have "node_outer (k + 1) n args (ibs[unat k := ?x]) = (if distinct args then Some args else None)"
          using "1.IH"(2) [OF False refl _ le' "1.prems"(2) len' t' d'] True by simp
        then show ?thesis
          using False True by (subst node_outer.simps) simp
      next
        case k0: False
        have inner: "node_inner 0 k ?x ibs = Some (ibs[unat k := ?x])"
          using fresh lt "1.prems"(3) k0 by (subst node_inner_result) (simp_all add: mem)
        have "node_outer (k + 1) n args (ibs[unat k := ?x]) = (if distinct args then Some args else None)"
          using "1.IH"(1) [OF False refl k0 inner le' "1.prems"(2) len' t' d'] .
        then show ?thesis
          using False k0 inner by (subst node_outer.simps) simp
      qed
    qed
  qed
qed


text \<open>
  C9 as stated, that a NULL reference among the arguments makes \<open>x9_create_node\<close> return
  NULL, fails: the node is created and holds the NULL reference.
\<close>

theorem x9_create_node_null_reference_counterexample:
  "x9_node_is_valid (x9_create_node alloc_ok ''node'' 2 [NULL, 7]) \<and>
   inboxes (the (x9_create_node alloc_ok ''node'' 2 [NULL, 7])) = [NULL, 7]"
  by code_simp

text \<open>
  C9, amended. Called with as many references as \<open>n_inboxes\<close> announces,
  \<open>x9_create_node\<close> returns NULL whenever the count is zero, an allocation fails or the
  same reference occurs twice among the arguments (two NULL references included);
  otherwise it returns a valid node that holds the \<open>n\<close> references in argument order.
  A NULL reference that occurs once is stored like any other.
\<close>

theorem x9_create_node_result:
  assumes "length args = unat n"
  shows "x9_create_node al nm n args =
     (if n = 0 \<or> \<not> alloc_struct al \<or> \<not> alloc_name al \<or> \<not> alloc_array al \<or> \<not> distinct args
      then None
      else Some \<lparr>inboxes = args, n_inboxes = n,
                  node_name = takeWhile (\<lambda>c. c \<noteq> CHR 0x00) nm\<rparr>)"
proof -
  have "node_outer 0 n args (replicate (unat n) NULL) = (if distinct args then Some args else None)"
    using assms by (intro node_outer_result) simp_all
  then show ?thesis
    by (simp add: x9_create_node_def word_gt_0)
qed

theorem x9_create_node_result_witness:
  "length [5, 6, 7 :: x9_inbox_ptr] = unat (3 :: u64) \<and>
   x9_create_node alloc_ok ''node'' 3 [5, 6, 7] =
     Some \<lparr>inboxes = [5, 6, 7], n_inboxes = 3, node_name = ''node''\<rparr> \<and>
   length [5, 6, 5 :: x9_inbox_ptr] = unat (3 :: u64) \<and>
   x9_create_node alloc_ok ''node'' 3 [5, 6, 5] = None \<and>
   length [NULL, NULL] = unat (2 :: u64) \<and>
   x9_create_node alloc_ok ''node'' 2 [NULL, NULL] = None"
proof -
  have a: "length [5, 6, 7 :: x9_inbox_ptr] = unat (3 :: u64)"
    and b: "length [5, 6, 5 :: x9_inbox_ptr] = unat (3 :: u64)"
    and c: "length [NULL, NULL] = unat (2 :: u64)"
    by simp_all
  from x9_create_node_result [OF a, of alloc_ok "''node''"]
    x9_create_node_result [OF b, of alloc_ok "''node''"]
    x9_create_node_result [OF c, of alloc_ok "''node''"] a b c
  show ?thesis
    by (simp add: alloc_ok_def)
qed

section \<open>Capacity\<close>

lemma filter_update_length:
  assumes "i < length xs" and "\<not> P (xs ! i)" and "P y"
  shows "length (filter P (xs[i := y])) = Suc (length (filter P xs))"
  using assms
proof (induction xs arbitrary: i)
  case Nil
  then show ?case by simp
next
  case (Cons x xs)
  then show ?case
    by (cases i) simp_all
qed

lemma x9_write_to_inbox_cases:
  "x9_write_to_inbox inbox n msg =
     (if slot_has_data (x9_header_ptr inbox (x9_load_idx inbox False)) then (False, inbox)
      else (True, inbox\<lparr>write_idx := write_idx inbox + 1,
                        msgs := (msgs inbox)[unat (x9_load_idx inbox False) :=
                          (x9_header_ptr inbox (x9_load_idx inbox False))
                            \<lparr>slot_has_data := True,
                             payload := memcpy (payload (x9_header_ptr inbox (x9_load_idx inbox False))) msg n,
                             msg_written := True\<rparr>]\<rparr>))"
proof (cases "unat (x9_load_idx inbox False) < length (msgs inbox)")
  case True
  then show ?thesis
    by (simp add: x9_write_to_inbox_def Let_def x9_atomic_defs)
next
  case False
  then show ?thesis
    by (simp add: x9_write_to_inbox_def Let_def x9_atomic_defs list_update_beyond)
qed

lemma x9_write_to_inbox_occupied:
  assumes "length (msgs inbox) = unat (sz inbox)" and "sz inbox \<noteq> 0"
  shows "occupied_slots (snd (x9_write_to_inbox inbox n msg)) =
           occupied_slots inbox + (if fst (x9_write_to_inbox inbox n msg) then 1 else 0) \<and>
         length (msgs (snd (x9_write_to_inbox inbox n msg))) = unat (sz (snd (x9_write_to_inbox inbox n msg))) \<and>
         sz (snd (x9_write_to_inbox inbox n msg)) = sz inbox"
proof -
  have lt: "unat (x9_load_idx inbox False) < length (msgs inbox)"
    using assms by (rule x9_load_idx_in_range)
  show ?thesis
    using lt assms(1)
    by (simp add: x9_write_to_inbox_cases occupied_slots_def filter_update_length x9_header_ptr_def)
qed

lemma x9_read_from_inbox_false:
  "\<not> fst (x9_read_from_inbox inbox n outparam) \<Longrightarrow> fst (snd (x9_read_from_inbox inbox n outparam)) = inbox"
  by (simp add: x9_read_from_inbox_def Let_def split: if_splits)

lemma x9_run_occupied:
  assumes "length (msgs inbox) = unat (sz inbox)" and "sz inbox \<noteq> 0"
    and "\<forall>outparam. ReadInto True outparam \<notin> set (fst (x9_run inbox calls))"
  shows "occupied_slots (snd (x9_run inbox calls)) =
           occupied_slots inbox + length (filter (\<lambda>r. r = Written True) (fst (x9_run inbox calls))) \<and>
         length (msgs (snd (x9_run inbox calls))) = unat (sz inbox) \<and>
         sz (snd (x9_run inbox calls)) = sz inbox"
  using assms
proof (induction calls arbitrary: inbox)
  case Nil
  then show ?case by simp
next
  case (Cons c calls)
  show ?case
  proof (cases c)
    case (Write n msg)
    obtain r inbox' where w: "x9_write_to_inbox inbox n msg = (r, inbox')"
      by (cases "x9_write_to_inbox inbox n msg")
    obtain rs inbox'' where rest: "x9_run inbox' calls = (rs, inbox'')"
      by (cases "x9_run inbox' calls")
    from x9_write_to_inbox_occupied [OF Cons.prems(1,2), of n msg] w
    have o: "occupied_slots inbox' = occupied_slots inbox + (if r then 1 else 0)"
      and wf: "length (msgs inbox') = unat (sz inbox')" "sz inbox' = sz inbox"
      by simp_all
    have nr: "\<forall>outparam. ReadInto True outparam \<notin> set (fst (x9_run inbox' calls))"
      using Cons.prems(3) by (simp add: Write w rest)
    from Cons.IH [OF wf(1) _ nr] wf(2) Cons.prems(2) rest
    have ih: "occupied_slots inbox'' = occupied_slots inbox' + length (filter (\<lambda>r. r = Written True) rs)"
      "length (msgs inbox'') = unat (sz inbox)" "sz inbox'' = sz inbox"
      by simp_all
    show ?thesis
      using ih o by (simp add: Write w rest)
  next
    case (Read n outparam)
    obtain r inbox' outparam' where rd: "x9_read_from_inbox inbox n outparam = (r, inbox', outparam')"
      by (cases "x9_read_from_inbox inbox n outparam")
    obtain rs inbox'' where rest: "x9_run inbox' calls = (rs, inbox'')"
      by (cases "x9_run inbox' calls")
    have "\<not> r"
      using Cons.prems(3) by (auto simp: Read rd rest)
    with x9_read_from_inbox_false [of inbox n outparam] rd have same: "inbox' = inbox"
      by simp
    have rest': "x9_run inbox calls = (rs, inbox'')"
      using rest same by simp
    have nr: "\<forall>outparam. ReadInto True outparam \<notin> set (fst (x9_run inbox calls))"
      using Cons.prems(3) by (simp add: Read rd rest rest' same)
    from Cons.IH [OF Cons.prems(1,2) nr] rest'
    have ih: "occupied_slots inbox'' = occupied_slots inbox + length (filter (\<lambda>r. r = Written True) rs)"
      "length (msgs inbox'') = unat (sz inbox)" "sz inbox'' = sz inbox"
      by simp_all
    show ?thesis
      using ih by (simp add: Read rd rest)
  qed
qed


lemma filter_all_length:
  "length (filter P xs) = length xs \<Longrightarrow> \<forall>x\<in>set xs. P x"
proof (induction xs)
  case Nil
  show ?case by simp
next
  case (Cons x xs)
  have le: "length (filter P xs) \<le> length xs"
    by (rule length_filter_le)
  show ?case
  proof (cases "P x")
    case True
    with Cons.prems have "length (filter P xs) = length xs"
      by simp
    then have "\<forall>x\<in>set xs. P x"
      by (rule Cons.IH)
    with True show ?thesis
      by simp
  next
    case False
    with Cons.prems have "length (filter P xs) = Suc (length xs)"
      by simp
    with le have False
      by linarith
    then show ?thesis ..
  qed
qed

lemma x9_create_inbox_fresh:
  assumes "x9_create_inbox al C nm M = Some inbox"
  shows "length (msgs inbox) = unat (sz inbox)" and "sz inbox \<noteq> 0" and "sz inbox = C"
    and "occupied_slots inbox = 0" and "read_idx inbox = 0" and "write_idx inbox = 0"
    and "msg_sz inbox = M" and "\<forall>s\<in>set (msgs inbox). length (payload s) = unat M"
proof -
  have C: "C \<noteq> 0"
    using assms by (cases "C = 0") (simp_all add: x9_create_inbox_def)
  have e: "inbox = \<lparr>read_idx = 0, write_idx = 0, sz = C, msg_sz = M,
                    constant = 0xFFFFFFFFFFFFFFFF div C + 1,
                    msgs = replicate (unat C) (empty_slot M),
                    name = takeWhile (\<lambda>c. c \<noteq> CHR 0x00) nm\<rparr>"
    using assms by (simp add: x9_create_inbox_def split: if_splits)
  show "length (msgs inbox) = unat (sz inbox)" and "sz inbox \<noteq> 0" and "sz inbox = C"
    and "occupied_slots inbox = 0" and "read_idx inbox = 0" and "write_idx inbox = 0"
    and "msg_sz inbox = M" and "\<forall>s\<in>set (msgs inbox). length (payload s) = unat M"
    using C by (simp_all add: e occupied_slots_def empty_slot_def)
qed

text \<open>
  C5. On a well-formed inbox, in any sequence of non-blocking calls within the contract in
  which no read returns true, at most as many writes return true as the inbox has slots.
  And on a fresh inbox of capacity \<open>C\<close>, after \<open>C\<close> calls that were all writes returning
  true, the next \<open>x9_write_to_inbox\<close> returns false.
\<close>

theorem x9_write_to_inbox_capacity:
  "(length (msgs inbox) = unat (sz inbox) \<and> sz inbox \<noteq> 0 \<and>
    (\<forall>c\<in>set calls. call_in_contract inbox c) \<and>
    (\<forall>outparam. ReadInto True outparam \<notin> set (fst (x9_run inbox calls))) \<longrightarrow>
      length (filter (\<lambda>r. r = Written True) (fst (x9_run inbox calls))) \<le> unat (sz inbox)) \<and>
   (x9_create_inbox al C nm M = Some fresh \<and>
    (\<forall>c\<in>set writes. call_in_contract fresh c) \<and>
    fst (x9_run fresh writes) = replicate (unat C) (Written True) \<and>
    call_in_contract fresh (Write n msg) \<longrightarrow>
      \<not> fst (x9_write_to_inbox (snd (x9_run fresh writes)) n msg))"
proof (intro conjI impI)
  assume a: "length (msgs inbox) = unat (sz inbox) \<and> sz inbox \<noteq> 0 \<and>
    (\<forall>c\<in>set calls. call_in_contract inbox c) \<and>
    (\<forall>outparam. ReadInto True outparam \<notin> set (fst (x9_run inbox calls)))"
  let ?end = "snd (x9_run inbox calls)"
  from a have wf: "length (msgs inbox) = unat (sz inbox)" "sz inbox \<noteq> 0"
    and nr: "\<forall>outparam. ReadInto True outparam \<notin> set (fst (x9_run inbox calls))"
    by simp_all
  from x9_run_occupied [OF wf nr]
  have o: "occupied_slots ?end =
             occupied_slots inbox + length (filter (\<lambda>r. r = Written True) (fst (x9_run inbox calls)))"
    and l: "length (msgs ?end) = unat (sz inbox)"
    by simp_all
  have "occupied_slots ?end \<le> length (msgs ?end)"
    unfolding occupied_slots_def by (rule length_filter_le)
  with o l show "length (filter (\<lambda>r. r = Written True) (fst (x9_run inbox calls))) \<le> unat (sz inbox)"
    by simp
next
  assume b: "x9_create_inbox al C nm M = Some fresh \<and>
    (\<forall>c\<in>set writes. call_in_contract fresh c) \<and>
    fst (x9_run fresh writes) = replicate (unat C) (Written True) \<and>
    call_in_contract fresh (Write n msg)"
  let ?end = "snd (x9_run fresh writes)"
  note f = x9_create_inbox_fresh [OF b [THEN conjunct1]]
  from b have rs: "fst (x9_run fresh writes) = replicate (unat C) (Written True)"
    by simp
  have nr: "\<forall>outparam. ReadInto True outparam \<notin> set (fst (x9_run fresh writes))"
    unfolding rs by simp
  from x9_run_occupied [OF f(1,2) nr] rs f(3,4)
  have o: "occupied_slots ?end = unat C" and l: "length (msgs ?end) = unat (sz ?end)"
    and z: "sz ?end \<noteq> 0" and l': "length (msgs ?end) = unat C"
    using f(2) by simp_all
  from o l' have "length (filter slot_has_data (msgs ?end)) = length (msgs ?end)"
    by (simp add: occupied_slots_def)
  then have all: "\<forall>s\<in>set (msgs ?end). slot_has_data s"
    by (rule filter_all_length)
  have "unat (x9_load_idx ?end False) < length (msgs ?end)"
    using l z by (rule x9_load_idx_in_range)
  then have "slot_has_data (x9_header_ptr ?end (x9_load_idx ?end False))"
    using all by (simp add: x9_header_ptr_def)
  then show "\<not> fst (x9_write_to_inbox ?end n msg)"
    by (simp add: x9_write_to_inbox_cases)
qed

theorem x9_write_to_inbox_capacity_witness:
  "length (msgs example_inbox) = unat (sz example_inbox) \<and> sz example_inbox \<noteq> 0 \<and>
   call_in_contract example_inbox (Write 2 [1, 2]) \<and>
   call_in_contract example_inbox (Write 2 [3, 4]) \<and>
   call_in_contract example_inbox (Write 2 [5, 6]) \<and>
   call_in_contract example_inbox (Write 2 [7, 8]) \<and>
   fst (x9_run example_inbox [Write 2 [1, 2], Write 2 [3, 4], Write 2 [5, 6], Write 2 [7, 8]]) =
     [Written True, Written True, Written False, Written False] \<and>
   length (filter (\<lambda>r. r = Written True)
     (fst (x9_run example_inbox [Write 2 [1, 2], Write 2 [3, 4], Write 2 [5, 6], Write 2 [7, 8]])))
     \<le> unat (sz example_inbox) \<and>
   x9_create_inbox alloc_ok 2 ''ibx'' 2 = Some example_inbox \<and>
   fst (x9_run example_inbox [Write 2 [1, 2], Write 2 [3, 4]]) = replicate (unat (2 :: u64)) (Written True) \<and>
   \<not> fst (x9_write_to_inbox (snd (x9_run example_inbox [Write 2 [1, 2], Write 2 [3, 4]])) 2 [5, 6])"
proof -
  have l: "length (msgs example_inbox) = unat (sz example_inbox)" and z: "sz example_inbox \<noteq> 0"
    and m: "msg_sz example_inbox = 2"
    unfolding example_inbox_def by code_simp+
  have k: "\<forall>c\<in>set [Write 2 [1, 2], Write 2 [3, 4], Write 2 [5, 6], Write 2 [7, 8]].
      call_in_contract example_inbox c"
    and k2: "\<forall>c\<in>set [Write 2 [1, 2], Write 2 [3, 4]]. call_in_contract example_inbox c"
    and k3: "call_in_contract example_inbox (Write 2 [5, 6])"
    by (simp_all add: call_in_contract_def m)
  have r1: "fst (x9_run example_inbox [Write 2 [1, 2], Write 2 [3, 4], Write 2 [5, 6], Write 2 [7, 8]]) =
     [Written True, Written True, Written False, Written False]"
    unfolding example_inbox_def by code_simp
  have nr: "\<forall>outparam. ReadInto True outparam \<notin>
     set (fst (x9_run example_inbox [Write 2 [1, 2], Write 2 [3, 4], Write 2 [5, 6], Write 2 [7, 8]]))"
    unfolding r1 by simp
  have c: "x9_create_inbox alloc_ok 2 ''ibx'' 2 = Some example_inbox"
    unfolding example_inbox_def by (simp add: x9_create_inbox_def alloc_ok_def)
  have r2: "fst (x9_run example_inbox [Write 2 [1, 2], Write 2 [3, 4]]) = replicate (unat (2 :: u64)) (Written True)"
    unfolding example_inbox_def by code_simp
  note t = x9_write_to_inbox_capacity [of example_inbox
      "[Write 2 [1, 2], Write 2 [3, 4], Write 2 [5, 6], Write 2 [7, 8]]" alloc_ok 2 "''ibx''" 2
      example_inbox "[Write 2 [1, 2], Write 2 [3, 4]]" 2 "[5, 6]"]
  from t [THEN conjunct1] l z k nr
  have a: "length (filter (\<lambda>r. r = Written True)
     (fst (x9_run example_inbox [Write 2 [1, 2], Write 2 [3, 4], Write 2 [5, 6], Write 2 [7, 8]])))
     \<le> unat (sz example_inbox)"
    by (rule mp [OF _ conjI [OF _ conjI [OF _ conjI]]])
  from t [THEN conjunct2] c k2 r2 k3
  have b: "\<not> fst (x9_write_to_inbox (snd (x9_run example_inbox [Write 2 [1, 2], Write 2 [3, 4]])) 2 [5, 6])"
    by (rule mp [OF _ conjI [OF _ conjI [OF _ conjI]]])
  have k4: "call_in_contract example_inbox (Write 2 [1, 2])"
    "call_in_contract example_inbox (Write 2 [3, 4])"
    "call_in_contract example_inbox (Write 2 [5, 6])"
    "call_in_contract example_inbox (Write 2 [7, 8])"
    using k by simp_all
  from l z k4 r1 a c r2 b show ?thesis
    by (intro conjI)
qed

section \<open>First in, first out\<close>

lemma ticket_idx_cong:
  "constant inbox' = constant inbox \<Longrightarrow> sz inbox' = sz inbox \<Longrightarrow>
   ticket_idx inbox' c = ticket_idx inbox c"
  by (simp add: ticket_idx_def x9_load_idx_def)

lemma x9_load_idx_ticket:
  "x9_load_idx inbox False = ticket_idx inbox (write_idx inbox)"
  "x9_load_idx inbox True = ticket_idx inbox (read_idx inbox)"
  by (simp_all add: ticket_idx_def x9_load_idx_def)

lemma x9_read_from_inbox_cases:
  "x9_read_from_inbox inbox n outparam =
     (if slot_has_data (x9_header_ptr inbox (x9_load_idx inbox True)) \<and>
         msg_written (x9_header_ptr inbox (x9_load_idx inbox True))
      then (True,
            inbox\<lparr>read_idx := read_idx inbox + 1,
                  msgs := (msgs inbox)[unat (x9_load_idx inbox True) :=
                    (x9_header_ptr inbox (x9_load_idx inbox True))
                      \<lparr>msg_written := False, slot_has_data := False\<rparr>]\<rparr>,
            memcpy outparam (payload (x9_header_ptr inbox (x9_load_idx inbox True))) n)
      else (False, inbox, outparam))"
proof (cases "unat (x9_load_idx inbox True) < length (msgs inbox)")
  case True
  then show ?thesis
    by (simp add: x9_read_from_inbox_def Let_def x9_atomic_defs)
next
  case False
  then show ?thesis
    by (simp add: x9_read_from_inbox_def Let_def x9_atomic_defs list_update_beyond)
qed

lemma x9_holds_write:
  assumes h: "x9_holds inbox pend" and len: "length m = unat (msg_sz inbox)"
    and ok: "fst (x9_write_to_inbox inbox (msg_sz inbox) m)"
  shows "x9_holds (snd (x9_write_to_inbox inbox (msg_sz inbox) m)) (pend @ [m])"
proof -
  let ?r = "read_idx inbox"
  let ?k = "length pend"
  let ?T = "\<lambda>i. ticket_idx inbox (?r + of_nat i)"
  from h have wf: "length (msgs inbox) = unat (sz inbox)" "sz inbox \<noteq> 0"
    and w: "write_idx inbox = ?r + of_nat ?k"
    and full: "\<And>i. i < ?k \<Longrightarrow> slot_has_data (x9_header_ptr inbox (?T i)) \<and>
                 msg_written (x9_header_ptr inbox (?T i)) \<and> payload (x9_header_ptr inbox (?T i)) = pend ! i"
    and dist: "\<And>i j. i < ?k \<Longrightarrow> j < i \<Longrightarrow> ?T i \<noteq> ?T j"
    and pl: "\<And>s. s \<in> set (msgs inbox) \<Longrightarrow> length (payload s) = unat (msg_sz inbox)"
    and ml: "\<And>m. m \<in> set pend \<Longrightarrow> length m = unat (msg_sz inbox)"
    unfolding x9_holds_def by blast+
  have idx: "x9_load_idx inbox False = ?T ?k"
    by (simp add: x9_load_idx_ticket w)
  define h0 where "h0 = x9_header_ptr inbox (?T ?k)"
  have free: "\<not> slot_has_data h0"
    using ok unfolding h0_def by (simp add: x9_write_to_inbox_cases idx split: if_splits)
  have rng: "unat (?T ?k) < length (msgs inbox)"
    using wf by (rule ticket_idx_in_range)
  have "h0 \<in> set (msgs inbox)"
    unfolding h0_def x9_header_ptr_def using rng by simp
  then have "length (payload h0) = unat (msg_sz inbox)"
    by (rule pl)
  then have cp: "memcpy (payload h0) m (msg_sz inbox) = m"
    using len by (simp add: memcpy_whole)
  define inbox' where "inbox' = inbox\<lparr>write_idx := write_idx inbox + 1,
      msgs := (msgs inbox)[unat (?T ?k) := h0\<lparr>slot_has_data := True, payload := m, msg_written := True\<rparr>]\<rparr>"
  have res: "snd (x9_write_to_inbox inbox (msg_sz inbox) m) = inbox'"
    using free cp unfolding inbox'_def h0_def by (simp add: x9_write_to_inbox_cases idx)
  have T': "\<And>c. ticket_idx inbox' c = ticket_idx inbox c"
    by (rule ticket_idx_cong) (simp_all add: inbox'_def)
  have ne: "\<And>i. i < ?k \<Longrightarrow> unat (?T i) \<noteq> unat (?T ?k)"
  proof
    fix i assume i: "i < ?k" and e: "unat (?T i) = unat (?T ?k)"
    from e have "?T i = ?T ?k"
      by (simp add: word_unat_eq_iff)
    with full [OF i] free show False
      by (simp add: h0_def)
  qed
  have old: "\<And>i. i < ?k \<Longrightarrow> x9_header_ptr inbox' (?T i) = x9_header_ptr inbox (?T i)"
  proof -
    fix i assume "i < ?k"
    then have "unat (?T ?k) \<noteq> unat (?T i)"
      using ne [of i] by simp
    then show "x9_header_ptr inbox' (?T i) = x9_header_ptr inbox (?T i)"
      by (simp add: inbox'_def x9_header_ptr_def)
  qed
  have new: "x9_header_ptr inbox' (?T ?k) = h0\<lparr>slot_has_data := True, payload := m, msg_written := True\<rparr>"
    using rng by (simp add: inbox'_def x9_header_ptr_def)
  have r': "read_idx inbox' = ?r" and w': "write_idx inbox' = read_idx inbox' + of_nat (length (pend @ [m]))"
    and m': "msg_sz inbox' = msg_sz inbox"
    by (simp_all add: inbox'_def w)
  have slots: "\<forall>i<length (pend @ [m]).
        slot_has_data (x9_header_ptr inbox' (ticket_idx inbox' (read_idx inbox' + of_nat i))) \<and>
        msg_written (x9_header_ptr inbox' (ticket_idx inbox' (read_idx inbox' + of_nat i))) \<and>
        payload (x9_header_ptr inbox' (ticket_idx inbox' (read_idx inbox' + of_nat i))) = (pend @ [m]) ! i"
  proof (intro allI impI)
    fix i assume "i < length (pend @ [m])"
    then consider "i < ?k" | "i = ?k"
      by fastforce
    then show "slot_has_data (x9_header_ptr inbox' (ticket_idx inbox' (read_idx inbox' + of_nat i))) \<and>
        msg_written (x9_header_ptr inbox' (ticket_idx inbox' (read_idx inbox' + of_nat i))) \<and>
        payload (x9_header_ptr inbox' (ticket_idx inbox' (read_idx inbox' + of_nat i))) = (pend @ [m]) ! i"
    proof cases
      case 1
      then show ?thesis
        using full [OF 1] by (simp add: T' r' old nth_append)
    next
      case 2
      then show ?thesis
        by (simp add: T' r' new)
    qed
  qed
  have distinct': "\<forall>i<length (pend @ [m]). \<forall>j<i.
        ticket_idx inbox' (read_idx inbox' + of_nat i) \<noteq> ticket_idx inbox' (read_idx inbox' + of_nat j)"
  proof (intro allI impI)
    fix i j assume i: "i < length (pend @ [m])" and j: "j < i"
    from i consider "i < ?k" | "i = ?k"
      by fastforce
    then show "ticket_idx inbox' (read_idx inbox' + of_nat i) \<noteq> ticket_idx inbox' (read_idx inbox' + of_nat j)"
    proof cases
      case 1
      then show ?thesis
        using dist [OF 1 j] by (simp add: T' r')
    next
      case 2
      with j have "j < ?k" by simp
      from ne [OF this] have "?T j \<noteq> ?T ?k"
        by auto
      then show ?thesis
        using 2 by (simp add: T' r' eq_commute)
    qed
  qed
  have pl': "\<forall>s\<in>set (msgs inbox'). length (payload s) = unat (msg_sz inbox')"
  proof
    fix s assume "s \<in> set (msgs inbox')"
    then have "s \<in> insert (h0\<lparr>slot_has_data := True, payload := m, msg_written := True\<rparr>) (set (msgs inbox))"
      unfolding inbox'_def using set_update_subset_insert by fastforce
    then show "length (payload s) = unat (msg_sz inbox')"
      using pl len by (auto simp: m')
  qed
  have ml': "\<forall>x\<in>set (pend @ [m]). length x = unat (msg_sz inbox')"
    using ml len by (auto simp: m')
  have wf': "length (msgs inbox') = unat (sz inbox')" "sz inbox' \<noteq> 0"
    using wf by (simp_all add: inbox'_def)
  show ?thesis
    unfolding res x9_holds_def by (intro conjI wf' w' slots distinct' pl' ml')
qed


lemma x9_holds_read:
  assumes h: "x9_holds inbox (m # pend)" and len: "length outparam = unat (msg_sz inbox)"
  shows "fst (x9_read_from_inbox inbox (msg_sz inbox) outparam)"
    and "snd (snd (x9_read_from_inbox inbox (msg_sz inbox) outparam)) = m"
    and "x9_holds (fst (snd (x9_read_from_inbox inbox (msg_sz inbox) outparam))) pend"
proof -
  let ?r = "read_idx inbox"
  let ?T = "\<lambda>i. ticket_idx inbox (?r + of_nat i)"
  from h have wf: "length (msgs inbox) = unat (sz inbox)" "sz inbox \<noteq> 0"
    and w: "write_idx inbox = ?r + of_nat (length (m # pend))"
    and full: "\<And>i. i < length (m # pend) \<Longrightarrow> slot_has_data (x9_header_ptr inbox (?T i)) \<and>
                 msg_written (x9_header_ptr inbox (?T i)) \<and>
                 payload (x9_header_ptr inbox (?T i)) = (m # pend) ! i"
    and dist: "\<And>i j. i < length (m # pend) \<Longrightarrow> j < i \<Longrightarrow> ?T i \<noteq> ?T j"
    and pl: "\<And>s. s \<in> set (msgs inbox) \<Longrightarrow> length (payload s) = unat (msg_sz inbox)"
    and ml: "\<And>x. x \<in> set (m # pend) \<Longrightarrow> length x = unat (msg_sz inbox)"
    unfolding x9_holds_def by blast+
  have idx: "x9_load_idx inbox True = ?T 0"
    by (simp add: x9_load_idx_ticket)
  define h0 where "h0 = x9_header_ptr inbox (?T 0)"
  have h0: "slot_has_data h0" "msg_written h0" "payload h0 = m"
    using full [of 0] by (simp_all add: h0_def)
  have "length m = unat (msg_sz inbox)"
    by (rule ml) simp
  then have cp: "memcpy outparam (payload h0) (msg_sz inbox) = m"
    using len h0(3) by (simp add: memcpy_whole)
  define inbox' where "inbox' = inbox\<lparr>read_idx := read_idx inbox + 1,
      msgs := (msgs inbox)[unat (?T 0) := h0\<lparr>msg_written := False, slot_has_data := False\<rparr>]\<rparr>"
  have res: "x9_read_from_inbox inbox (msg_sz inbox) outparam = (True, inbox', m)"
    using h0 cp unfolding inbox'_def h0_def by (simp add: x9_read_from_inbox_cases idx)
  show "fst (x9_read_from_inbox inbox (msg_sz inbox) outparam)"
    and "snd (snd (x9_read_from_inbox inbox (msg_sz inbox) outparam)) = m"
    by (simp_all add: res)
  have T': "\<And>c. ticket_idx inbox' c = ticket_idx inbox c"
    by (rule ticket_idx_cong) (simp_all add: inbox'_def)
  have shift: "\<And>i. read_idx inbox' + of_nat i = ?r + of_nat (Suc i)"
    by (simp add: inbox'_def)
  have old: "\<And>i. i < length pend \<Longrightarrow> x9_header_ptr inbox' (?T (Suc i)) = x9_header_ptr inbox (?T (Suc i))"
  proof -
    fix i assume "i < length pend"
    then have "?T (Suc i) \<noteq> ?T 0"
      by (intro dist) simp_all
    then have "unat (?T 0) \<noteq> unat (?T (Suc i))"
      by (simp add: word_unat_eq_iff)
    then show "x9_header_ptr inbox' (?T (Suc i)) = x9_header_ptr inbox (?T (Suc i))"
      by (simp add: inbox'_def x9_header_ptr_def)
  qed
  have w': "write_idx inbox' = read_idx inbox' + of_nat (length pend)"
    by (simp add: inbox'_def w)
  have m': "msg_sz inbox' = msg_sz inbox"
    by (simp add: inbox'_def)
  have slots: "\<forall>i<length pend.
        slot_has_data (x9_header_ptr inbox' (ticket_idx inbox' (read_idx inbox' + of_nat i))) \<and>
        msg_written (x9_header_ptr inbox' (ticket_idx inbox' (read_idx inbox' + of_nat i))) \<and>
        payload (x9_header_ptr inbox' (ticket_idx inbox' (read_idx inbox' + of_nat i))) = pend ! i"
  proof (intro allI impI)
    fix i assume i: "i < length pend"
    then have "Suc i < length (m # pend)"
      by simp
    from full [OF this] old [OF i]
    show "slot_has_data (x9_header_ptr inbox' (ticket_idx inbox' (read_idx inbox' + of_nat i))) \<and>
        msg_written (x9_header_ptr inbox' (ticket_idx inbox' (read_idx inbox' + of_nat i))) \<and>
        payload (x9_header_ptr inbox' (ticket_idx inbox' (read_idx inbox' + of_nat i))) = pend ! i"
      unfolding T' shift by simp
  qed
  have distinct': "\<forall>i<length pend. \<forall>j<i.
        ticket_idx inbox' (read_idx inbox' + of_nat i) \<noteq> ticket_idx inbox' (read_idx inbox' + of_nat j)"
  proof (intro allI impI)
    fix i j assume "i < length pend" and "j < i"
    then have "?T (Suc i) \<noteq> ?T (Suc j)"
      by (intro dist) simp_all
    then show "ticket_idx inbox' (read_idx inbox' + of_nat i) \<noteq> ticket_idx inbox' (read_idx inbox' + of_nat j)"
      unfolding T' shift .
  qed
  have pl': "\<forall>s\<in>set (msgs inbox'). length (payload s) = unat (msg_sz inbox')"
  proof
    fix s assume "s \<in> set (msgs inbox')"
    then have "s \<in> insert (h0\<lparr>msg_written := False, slot_has_data := False\<rparr>) (set (msgs inbox))"
      unfolding inbox'_def using set_update_subset_insert by fastforce
    moreover have "length (payload h0) = unat (msg_sz inbox)"
      using h0(3) ml by simp
    ultimately show "length (payload s) = unat (msg_sz inbox')"
      using pl by (auto simp: m')
  qed
  have ml': "\<forall>x\<in>set pend. length x = unat (msg_sz inbox')"
    using ml by (simp add: m')
  have wf': "length (msgs inbox') = unat (sz inbox')" "sz inbox' \<noteq> 0"
    using wf by (simp_all add: inbox'_def)
  have "x9_holds inbox' pend"
    unfolding x9_holds_def by (intro conjI wf' w' slots distinct' pl' ml')
  then show "x9_holds (fst (snd (x9_read_from_inbox inbox (msg_sz inbox) outparam))) pend"
    by (simp add: res)
qed


lemma x9_run_append:
  "x9_run inbox (xs @ ys) =
     (fst (x9_run inbox xs) @ fst (x9_run (snd (x9_run inbox xs)) ys),
      snd (x9_run (snd (x9_run inbox xs)) ys))"
proof (induction xs arbitrary: inbox)
  case Nil
  show ?case by simp
next
  case (Cons c xs)
  show ?case
    by (cases c) (simp_all add: Cons.IH split_beta)
qed

lemma x9_write_to_inbox_msg_sz:
  "msg_sz (snd (x9_write_to_inbox inbox n m)) = msg_sz inbox"
  by (simp add: x9_write_to_inbox_cases)

lemma x9_run_writes:
  assumes "x9_holds inbox pend" and "\<forall>m\<in>set ms. length m = unat (msg_sz inbox)"
    and "fst (x9_run inbox (map (Write (msg_sz inbox)) ms)) = replicate (length ms) (Written True)"
  shows "x9_holds (snd (x9_run inbox (map (Write (msg_sz inbox)) ms))) (pend @ ms)"
  using assms
proof (induction ms arbitrary: inbox pend)
  case Nil
  then show ?case by simp
next
  case (Cons m ms)
  let ?w = "x9_write_to_inbox inbox (msg_sz inbox) m"
  have sz: "msg_sz (snd ?w) = msg_sz inbox"
    by (rule x9_write_to_inbox_msg_sz)
  have ok: "fst ?w"
    using Cons.prems(3) by (simp add: split_beta)
  have rest: "fst (x9_run (snd ?w) (map (Write (msg_sz (snd ?w))) ms)) = replicate (length ms) (Written True)"
    using Cons.prems(3) by (simp add: split_beta sz)
  have len: "length m = unat (msg_sz inbox)"
    using Cons.prems(2) by simp
  have h: "x9_holds (snd ?w) (pend @ [m])"
    using Cons.prems(1) len ok by (rule x9_holds_write)
  have lens: "\<forall>m\<in>set ms. length m = unat (msg_sz (snd ?w))"
    using Cons.prems(2) by (simp add: sz)
  from Cons.IH [OF h lens rest]
  show ?case
    by (simp add: split_beta sz)
qed

lemma x9_read_from_inbox_msg_sz:
  "msg_sz (fst (snd (x9_read_from_inbox inbox n outparam))) = msg_sz inbox"
  by (simp add: x9_read_from_inbox_cases)

lemma x9_run_reads:
  assumes "x9_holds inbox (ms @ rest)" and "length outs = length ms"
    and "\<forall>b\<in>set outs. length b = unat (msg_sz inbox)"
  shows "fst (x9_run inbox (map (Read (msg_sz inbox)) outs)) = map (ReadInto True) ms"
  using assms
proof (induction ms arbitrary: inbox outs)
  case Nil
  then show ?case by simp
next
  case (Cons m ms)
  from Cons.prems(2) obtain b outs' where outs: "outs = b # outs'" and l: "length outs' = length ms"
    by (cases outs) simp_all
  let ?r = "x9_read_from_inbox inbox (msg_sz inbox) b"
  have lb: "length b = unat (msg_sz inbox)"
    using Cons.prems(3) by (simp add: outs)
  have h: "x9_holds inbox (m # (ms @ rest))"
    using Cons.prems(1) by simp
  note rd = x9_holds_read [OF h lb]
  have sz: "msg_sz (fst (snd ?r)) = msg_sz inbox"
    by (rule x9_read_from_inbox_msg_sz)
  have lens: "\<forall>b\<in>set outs'. length b = unat (msg_sz (fst (snd ?r)))"
    using Cons.prems(3) by (simp add: outs sz)
  from Cons.IH [OF rd(3) l lens] rd(1,2)
  show ?case
    by (simp add: outs split_beta sz)
qed

lemma x9_holds_fresh:
  assumes "x9_create_inbox al C nm M = Some inbox"
  shows "x9_holds inbox []"
  using x9_create_inbox_fresh [OF assms] by (simp add: x9_holds_def)

text \<open>
  C4. On a freshly created inbox of capacity \<open>C\<close> and message size \<open>M\<close>, let a producer
  call \<open>x9_write_to_inbox\<close> with the messages \<open>ms\<close> (each of \<open>M\<close> bytes) and a consumer
  then call \<open>x9_read_from_inbox\<close> as many times, each with a buffer of \<open>M\<close> bytes. If all
  the writes return true, then every read returns true and leaves in its buffer the
  message written at the same position: the payloads read are the payloads written, byte
  for byte and in the same order.
\<close>

theorem x9_write_then_read_fifo:
  assumes "x9_create_inbox al C nm M = Some inbox"
    and "\<forall>m\<in>set ms. length m = unat M"
    and "length outs = length ms"
    and "\<forall>b\<in>set outs. length b = unat M"
    and "take (length ms) (fst (x9_run inbox (map (Write M) ms @ map (Read M) outs))) =
           replicate (length ms) (Written True)"
  shows "drop (length ms) (fst (x9_run inbox (map (Write M) ms @ map (Read M) outs))) =
           map (ReadInto True) ms"
proof -
  have M: "msg_sz inbox = M"
    using assms(1) by (rule x9_create_inbox_fresh)
  let ?w = "x9_run inbox (map (Write M) ms)"
  have lw: "length (fst ?w) = length ms"
  proof -
    have "\<And>inbox. length (fst (x9_run inbox (map (Write M) ms))) = length ms"
      by (induction ms) (simp_all add: split_beta)
    then show ?thesis .
  qed
  have wr: "fst ?w = replicate (length ms) (Written True)"
    using assms(5) lw by (simp add: x9_run_append)
  have "x9_holds inbox []"
    using assms(1) by (rule x9_holds_fresh)
  then have "x9_holds (snd (x9_run inbox (map (Write (msg_sz inbox)) ms))) ([] @ ms)"
    using assms(2) wr unfolding M [symmetric] by (rule x9_run_writes)
  then have h: "x9_holds (snd ?w) (ms @ [])"
    by (simp add: M)
  have Mw: "msg_sz (snd ?w) = M"
  proof -
    have "\<And>inbox. msg_sz (snd (x9_run inbox (map (Write M) ms))) = msg_sz inbox"
      by (induction ms) (simp_all add: split_beta x9_write_to_inbox_msg_sz)
    then show ?thesis
      by (simp add: M)
  qed
  have "\<forall>b\<in>set outs. length b = unat (msg_sz (snd ?w))"
    using assms(4) by (simp only: Mw)
  with h assms(3) have "fst (x9_run (snd ?w) (map (Read (msg_sz (snd ?w))) outs)) = map (ReadInto True) ms"
    by (rule x9_run_reads)
  then show ?thesis
    using lw by (simp add: x9_run_append Mw)
qed

theorem x9_write_then_read_fifo_witness:
  "x9_create_inbox alloc_ok 2 ''ibx'' 2 = Some example_inbox \<and>
   take 2 (fst (x9_run example_inbox (map (Write 2) [[1, 2], [3, 4]] @ map (Read 2) [[0, 0], [0, 0]]))) =
     replicate 2 (Written True) \<and>
   drop 2 (fst (x9_run example_inbox (map (Write 2) [[1, 2], [3, 4]] @ map (Read 2) [[0, 0], [0, 0]]))) =
     [ReadInto True [1, 2], ReadInto True [3, 4]]"
proof -
  have c: "x9_create_inbox alloc_ok 2 ''ibx'' 2 = Some example_inbox"
    unfolding example_inbox_def by (simp add: x9_create_inbox_def alloc_ok_def)
  have a: "\<forall>m\<in>set [[1, 2], [3, 4 :: byte]]. length m = unat (2 :: u64)"
    and b: "length [[0, 0], [0, 0 :: byte]] = length [[1, 2], [3, 4 :: byte]]"
    and d: "\<forall>b\<in>set [[0, 0], [0, 0 :: byte]]. length b = unat (2 :: u64)"
    by simp_all
  have m: "map (Write 2) [[1, 2], [3, 4]] @ map (Read 2) [[0, 0], [0, 0]] =
             [Write 2 [1, 2], Write 2 [3, 4], Read 2 [0, 0], Read 2 [0, 0]]"
    by simp
  have r: "fst (x9_run example_inbox [Write 2 [1, 2], Write 2 [3, 4], Read 2 [0, 0], Read 2 [0, 0]]) =
             [Written True, Written True, ReadInto True [1, 2], ReadInto True [3, 4]]"
    unfolding example_inbox_def by code_simp
  have w: "take (length [[1, 2], [3, 4 :: byte]])
       (fst (x9_run example_inbox (map (Write 2) [[1, 2], [3, 4]] @ map (Read 2) [[0, 0], [0, 0]]))) =
     replicate (length [[1, 2], [3, 4 :: byte]]) (Written True)"
    unfolding m r by (simp add: numeral_2_eq_2)
  from x9_write_then_read_fifo [OF c a b d w] w c show ?thesis
    by (simp add: numeral_2_eq_2)
qed

section \<open>The counters for which the index is the remainder\<close>

lemma fast_mod_exact:
  fixes C K c e N :: nat
  assumes N: "0 < N" and KC: "K * C = N + e" and small: "c * e < N"
  shows "(((K * c) mod N) * C) div N = c mod C"
proof -
  define q where "q = (K * c) div N"
  define low where "low = (K * c) mod N"
  have split: "K * c = q * N + low"
    by (simp add: q_def low_def)
  have "K * c * C = (N + e) * c"
    using KC by (simp add: mult.commute mult.left_commute)
  then have eq: "low * C + q * C * N = c * N + c * e"
    unfolding split by (simp add: algebra_simps)
  have low: "low < N"
    using N by (simp add: low_def)
  have qc: "q * C \<le> c"
  proof (rule ccontr)
    assume "\<not> q * C \<le> c"
    then have "Suc c \<le> q * C"
      by simp
    then have "Suc c * N \<le> q * C * N"
      by (rule mult_le_mono1)
    then have "c * N + N \<le> q * C * N"
      by simp
    with eq small show False
      by linarith
  qed
  then obtain d where d: "c = q * C + d"
    using le_Suc_ex by blast
  have "low * C + q * C * N = (q * C + d) * N + c * e"
    using eq d by simp
  then have lc: "low * C = d * N + c * e"
    by (simp add: algebra_simps)
  have "d * N \<le> low * C"
    using lc by simp
  also have "low * C < N * C"
    using low d N
  proof -
    have "0 < C"
    proof (rule ccontr)
      assume "\<not> 0 < C"
      then have "C = 0" by simp
      with KC N show False by simp
    qed
    with low show ?thesis
      by simp
  qed
  finally have "d * N < C * N"
    by (simp add: mult.commute)
  then have dC: "d < C"
    by simp
  have "(low * C) div N = d"
    unfolding lc using small N by simp
  moreover have "c mod C = d"
    unfolding d using dC by simp
  ultimately show ?thesis
    by (simp add: low_def)
qed


lemma div_times_bounds:
  fixes N n :: nat
  assumes "0 < n" and "0 < N"
  shows "N \<le> ((N - 1) div n + 1) * n" and "((N - 1) div n + 1) * n < N + n"
proof -
  have dm: "(N - 1) div n * n + (N - 1) mod n = N - 1"
    by simp
  have "(N - 1) mod n < n"
    using assms(1) by simp
  with dm assms(2) have "N \<le> (N - 1) div n * n + n"
    by linarith
  then show "N \<le> ((N - 1) div n + 1) * n"
    by (simp add: algebra_simps)
  from dm assms(2) have "(N - 1) div n * n + n < N + n"
    by linarith
  then show "((N - 1) div n + 1) * n < N + n"
    by (simp add: algebra_simps)
qed

lemma constant_times_capacity:
  assumes "x9_create_inbox al C nm M = Some inbox"
  shows "2 ^ 64 \<le> unat (constant inbox) * unat C"
    and "unat (constant inbox) * unat C < 2 ^ 64 + unat C"
    and "unat C dvd 2 ^ 64 \<Longrightarrow> unat (constant inbox) * unat C = 2 ^ 64"
proof -
  have k: "unat (constant inbox) = (2 ^ 64 - 1) div unat C + 1"
    using assms by (rule unat_constant)
  have "C \<noteq> 0"
    using assms by (cases "C = 0") (simp_all add: x9_create_inbox_def)
  then have n: "0 < unat C"
    by (simp add: unat_gt_0)
  show "2 ^ 64 \<le> unat (constant inbox) * unat C"
    unfolding k using n by (rule div_times_bounds) simp
  show "unat (constant inbox) * unat C < 2 ^ 64 + unat C"
    unfolding k using n by (rule div_times_bounds) simp
  assume d: "unat C dvd 2 ^ 64"
  have "(2 ^ 64 - 1) div unat C + 1 = 2 ^ 64 div unat C"
    using div_pred [of "2 ^ 64" "unat C"] d by simp
  moreover have "2 ^ 64 div unat C * unat C = 2 ^ 64"
    using d by (rule dvd_div_mult_self)
  ultimately show "unat (constant inbox) * unat C = 2 ^ 64"
    unfolding k by simp
qed

text \<open>
  Where the index computation is the remainder: for the counters \<open>c\<close> with
  \<open>c * (K * C - 2^64) < 2^64\<close>, and so for every counter when the capacity is a power
  of two.
\<close>

lemma x9_load_idx_remainder:
  assumes "x9_create_inbox al C nm M = Some inbox"
    and "unat c * (unat (constant inbox) * unat C - 2 ^ 64) < 2 ^ 64"
  shows "unat (x9_load_idx (inbox\<lparr>write_idx := c\<rparr>) False) = unat c mod unat C"
proof -
  let ?K = "unat (constant inbox)"
  have sz: "sz inbox = C"
    using assms(1) by (rule x9_create_inbox_fresh)
  have KC: "?K * unat C = 2 ^ 64 + (?K * unat C - 2 ^ 64)"
    using constant_times_capacity(1) [OF assms(1)] by simp
  have "unat (constant inbox * c) = (?K * unat c) mod 2 ^ 64"
    by (simp add: unat_word_ariths)
  then have "unat (x9_load_idx (inbox\<lparr>write_idx := c\<rparr>) False) =
        (((?K * unat c) mod 2 ^ 64) * unat C) div 2 ^ 64"
    by (simp only: unat_x9_load_idx) (simp add: sz)
  also have "\<dots> = unat c mod unat C"
    using _ KC assms(2) by (rule fast_mod_exact) simp
  finally show ?thesis .
qed

lemma x9_load_idx_remainder_power_of_two:
  assumes "x9_create_inbox al C nm M = Some inbox" and "unat C dvd 2 ^ 64"
  shows "unat (x9_load_idx (inbox\<lparr>write_idx := c\<rparr>) False) = unat c mod unat C"
  using assms(1)
proof (rule x9_load_idx_remainder)
  show "unat c * (unat (constant inbox) * unat C - 2 ^ 64) < 2 ^ 64"
    using constant_times_capacity(3) [OF assms] by simp
qed

end
